theory Spec2Isabelle
  imports Main "HOL-Library.Word"
begin

section \<open>The SafeHavenDocs contract\<close>

text \<open>
  A shallow embedding of the Solidity contract \<^verbatim>\<open>SafeHavenDocs\<close> (pragma 0.8.24).
  Solidity value types are machine words; a \<^verbatim>\<open>mapping\<close> is a total function whose
  unwritten slots read as zero; \<^verbatim>\<open>msg.sender\<close> and \<^verbatim>\<open>block.timestamp\<close> are explicit
  arguments; a \<^verbatim>\<open>revert\<close> is an error value, and arithmetic outside \<^verbatim>\<open>unchecked\<close>
  reverts with \<^verbatim>\<open>Panic(0x11)\<close> on overflow.
\<close>

type_synonym bytes32 = "256 word"
type_synonym address = "160 word"
type_synonym uint256 = "256 word"
type_synonym uint40 = "40 word"
type_synonym uint32 = "32 word"
type_synonym euint64 = "256 word"
type_synonym externalEuint64 = "256 word"

record Document =
  name :: string
  encryptedBody :: string
  encryptedKey :: euint64
  owner :: address
  createdAt :: uint40
  updatedAt :: uint40
  version :: uint32

datatype error =
    InvalidName
  | InvalidAddress
  | DocumentAlreadyExists bytes32
  | DocumentNotFound bytes32
  | NotOwner bytes32 address
  | NotEditor bytes32 address
  | Panic nat
  | FheRevert

datatype event =
    DocumentCreated bytes32 address string
  | DocumentUpdated bytes32 address uint32
  | AccessGranted bytes32 address address

text \<open>
  The contract storage: \<^verbatim>\<open>_documents\<close>, \<^verbatim>\<open>_editors\<close> and \<^verbatim>\<open>_documentIds\<close>. The field
  \<open>fheAllowed\<close> is the part of the external FHE access-control list that the contract
  writes through \<^verbatim>\<open>FHE.allow\<close> and \<^verbatim>\<open>FHE.allowThis\<close>: a boolean per (handle, account).
\<close>

record state =
  documents :: "bytes32 \<Rightarrow> Document"
  editors :: "bytes32 \<Rightarrow> address \<Rightarrow> bool"
  documentIds :: "bytes32 list"
  fheAllowed :: "euint64 \<Rightarrow> address \<Rightarrow> bool"

text \<open>
  What the contract takes from outside its own source: the built-in \<^verbatim>\<open>keccak256\<close>,
  the input verification \<^verbatim>\<open>FHE.fromExternal\<close> of the FHE library (it depends on the
  caller, and \<open>None\<close> stands for its revert), and the contract's own address.
\<close>

record env =
  keccak256 :: "string \<Rightarrow> bytes32"
  fromExternal :: "address \<Rightarrow> externalEuint64 \<Rightarrow> string \<Rightarrow> euint64 option"
  this :: address

definition zeroDocument :: Document where
  "zeroDocument = \<lparr>name = [], encryptedBody = [], encryptedKey = 0, owner = 0,
     createdAt = 0, updatedAt = 0, version = 0\<rparr>"

definition initState :: state where
  "initState = \<lparr>documents = (\<lambda>_. zeroDocument), editors = (\<lambda>_ _. False),
     documentIds = [], fheAllowed = (\<lambda>_ _. False)\<rparr>"

definition computeDocumentId :: "env \<Rightarrow> string \<Rightarrow> bytes32" where
  "computeDocumentId e nm = keccak256 e nm"

definition createDocument ::
  "env \<Rightarrow> state \<Rightarrow> address \<Rightarrow> uint256 \<Rightarrow> string \<Rightarrow> externalEuint64 \<Rightarrow> string
    \<Rightarrow> error + (bytes32 \<times> state \<times> event list)" where
  "createDocument e s sender ts nm extKey inputProof =
     (if length nm = 0 then Inl InvalidName
      else let documentId = computeDocumentId e nm in
        if owner (documents s documentId) \<noteq> 0 then Inl (DocumentAlreadyExists documentId)
        else case fromExternal e sender extKey inputProof of
          None \<Rightarrow> Inl FheRevert
        | Some key \<Rightarrow>
            Inr (documentId,
              s\<lparr>documents := (documents s)(documentId :=
                    \<lparr>name = nm, encryptedBody = [], encryptedKey = key, owner = sender,
                     createdAt = ucast ts, updatedAt = ucast ts, version = 0\<rparr>),
                documentIds := documentIds s @ [documentId],
                editors := (editors s)(documentId := (editors s documentId)(sender := True)),
                fheAllowed := (fheAllowed s)(key :=
                    ((fheAllowed s key)(this e := True))(sender := True))\<rparr>,
              [DocumentCreated documentId sender nm]))"

definition updateEncryptedBody ::
  "state \<Rightarrow> address \<Rightarrow> uint256 \<Rightarrow> bytes32 \<Rightarrow> string \<Rightarrow> error + (state \<times> event list)" where
  "updateEncryptedBody s sender ts documentId body =
     (let doc = documents s documentId in
      if owner doc = 0 then Inl (DocumentNotFound documentId)
      else if \<not> editors s documentId sender then Inl (NotEditor documentId sender)
      else if unat (version doc) + 1 \<ge> 2 ^ 32 then Inl (Panic 17)
      else Inr (s\<lparr>documents := (documents s)(documentId :=
                    doc\<lparr>encryptedBody := body, updatedAt := ucast ts,
                        version := version doc + 1\<rparr>)\<rparr>,
                [DocumentUpdated documentId sender (version doc + 1)]))"

definition grantAccess ::
  "state \<Rightarrow> address \<Rightarrow> bytes32 \<Rightarrow> address \<Rightarrow> error + (state \<times> event list)" where
  "grantAccess s sender documentId grantee =
     (if grantee = 0 then Inl InvalidAddress
      else let doc = documents s documentId in
        if owner doc = 0 then Inl (DocumentNotFound documentId)
        else if owner doc \<noteq> sender then Inl (NotOwner documentId sender)
        else Inr (s\<lparr>editors := (editors s)(documentId := (editors s documentId)(grantee := True)),
                    fheAllowed := (fheAllowed s)(encryptedKey doc :=
                        (fheAllowed s (encryptedKey doc))(grantee := True))\<rparr>,
                  [AccessGranted documentId sender grantee]))"

definition getDocument :: "state \<Rightarrow> bytes32 \<Rightarrow> error + Document" where
  "getDocument s documentId =
     (let doc = documents s documentId in
      if owner doc = 0 then Inl (DocumentNotFound documentId) else Inr doc)"

definition isEditor :: "state \<Rightarrow> bytes32 \<Rightarrow> address \<Rightarrow> bool" where
  "isEditor s documentId user = editors s documentId user"

definition getDocumentCount :: "state \<Rightarrow> nat" where
  "getDocumentCount s = length (documentIds s)"

text \<open>
  The copy loop of \<^verbatim>\<open>getDocumentIds\<close>: \<open>i\<close> runs from \<open>offset\<close> to \<open>stop\<close>. An array
  access out of bounds is \<^verbatim>\<open>Panic(0x32)\<close>, an underflow of \<open>i - offset\<close> is \<^verbatim>\<open>Panic(0x11)\<close>.
\<close>

function copyIds ::
  "bytes32 list \<Rightarrow> nat \<Rightarrow> nat \<Rightarrow> nat \<Rightarrow> bytes32 list \<Rightarrow> error + bytes32 list" where
  "copyIds src offset stop i ids =
     (if i < stop then
        (if i < offset then Inl (Panic 17)
         else if length ids \<le> i - offset \<or> length src \<le> i then Inl (Panic 50)
         else copyIds src offset stop (i + 1) (ids[i - offset := src ! i]))
      else Inr ids)"
  by pat_completeness auto
termination
  by (relation "measure (\<lambda>(src, offset, stop, i, ids). stop - i)") auto

definition getDocumentIds :: "state \<Rightarrow> uint256 \<Rightarrow> uint256 \<Rightarrow> error + bytes32 list" where
  "getDocumentIds s offset limit =
     (let total = length (documentIds s) in
      if unat offset \<ge> total then Inr []
      else if unat offset + unat limit \<ge> 2 ^ 256 then Inl (Panic 17)
      else let stop = (if unat offset + unat limit > total then total
                       else unat offset + unat limit)
           in copyIds (documentIds s) (unat offset) stop (unat offset)
                (replicate (stop - unat offset) 0))"

subsection \<open>Transactions\<close>

text \<open>
  A transaction is one external call with its caller and block time. A call that reverts
  leaves the storage as it was: this is the rollback of the execution environment.
\<close>

datatype call =
    CreateDocument string externalEuint64 string
  | UpdateEncryptedBody bytes32 string
  | GrantAccess bytes32 address

datatype tx = Tx address uint256 call

fun exec :: "env \<Rightarrow> state \<Rightarrow> tx \<Rightarrow> error + (state \<times> event list)" where
  "exec e s (Tx sender ts (CreateDocument nm k p)) =
     (case createDocument e s sender ts nm k p of
        Inl err \<Rightarrow> Inl err | Inr (i, s', evs) \<Rightarrow> Inr (s', evs))"
| "exec e s (Tx sender ts (UpdateEncryptedBody i body)) = updateEncryptedBody s sender ts i body"
| "exec e s (Tx sender ts (GrantAccess i g)) = grantAccess s sender i g"

definition step :: "env \<Rightarrow> state \<Rightarrow> tx \<Rightarrow> state" where
  "step e s t = (case exec e s t of Inl err \<Rightarrow> s | Inr (s', evs) \<Rightarrow> s')"

fun run :: "env \<Rightarrow> state \<Rightarrow> tx list \<Rightarrow> state" where
  "run e s [] = s"
| "run e s (t # ts) = run e (step e s t) ts"

fun txSender :: "tx \<Rightarrow> address" where
  "txSender (Tx sender ts c) = sender"

subsection \<open>Traces and concrete states\<close>

text \<open>
  Along a trace, \<open>successfulUpdates\<close> lists the bodies written by the calls of
  \<^verbatim>\<open>updateEncryptedBody\<close> on a document that did not revert, and
  \<open>successfulGrantees\<close> the grantees of the calls of \<^verbatim>\<open>grantAccess\<close> on it that did
  not revert.
\<close>

fun updateOf :: "bytes32 \<Rightarrow> tx \<Rightarrow> string list" where
  "updateOf i (Tx sender ts (UpdateEncryptedBody j body)) = (if j = i then [body] else [])"
| "updateOf i (Tx sender ts (CreateDocument nm k p)) = []"
| "updateOf i (Tx sender ts (GrantAccess j g)) = []"

fun successfulUpdates :: "env \<Rightarrow> state \<Rightarrow> bytes32 \<Rightarrow> tx list \<Rightarrow> string list" where
  "successfulUpdates e s i [] = []"
| "successfulUpdates e s i (t # ts) =
     (case exec e s t of
        Inl err \<Rightarrow> successfulUpdates e s i ts
      | Inr (s', evs) \<Rightarrow> updateOf i t @ successfulUpdates e s' i ts)"

text \<open>
  Invariants used in the proofs: a free slot holds version 0 and an empty body
  (\<open>fresh\<close>); the registry, the owner field and the editor table agree on which
  documents exist (\<open>consistent\<close>); every non-zero editor is the owner or one of the
  accounts in a given set (\<open>editorsFrom\<close>).
\<close>

definition fresh :: "state \<Rightarrow> bytes32 \<Rightarrow> bool" where
  "fresh s i \<longleftrightarrow> (owner (documents s i) = 0 \<longrightarrow>
      version (documents s i) = 0 \<and> encryptedBody (documents s i) = [])"

text \<open>
  A concrete environment and concrete states, for evaluating the operations: a toy digest
  (the length of the name), an input check that accepts every non-empty proof, a document
  created by account 1, the same document shared with account 2, the same document after
  \<open>2 ^ 32 - 1\<close> updates, and a contract with two documents.
\<close>

definition env0 :: env where
  "env0 = \<lparr>keccak256 = (\<lambda>nm. of_nat (length nm)),
            fromExternal = (\<lambda>sender k p. if p = [] then None else Some k),
            this = 4096\<rparr>"

definition created0 :: state where
  "created0 = step env0 initState (Tx 1 1000 (CreateDocument ''a'' 7 ''p''))"

definition consistent :: "state \<Rightarrow> bool" where
  "consistent s \<longleftrightarrow> (\<forall>i. (i \<in> set (documentIds s) \<longleftrightarrow> owner (documents s i) \<noteq> 0) \<and>
     (owner (documents s i) = 0 \<longrightarrow> documents s i = zeroDocument \<and> (\<forall>x. \<not> editors s i x)))"

fun granteeOf :: "bytes32 \<Rightarrow> tx \<Rightarrow> address list" where
  "granteeOf i (Tx sender ts (GrantAccess j g)) = (if j = i then [g] else [])"
| "granteeOf i (Tx sender ts (CreateDocument nm k p)) = []"
| "granteeOf i (Tx sender ts (UpdateEncryptedBody j body)) = []"

fun successfulGrantees :: "env \<Rightarrow> state \<Rightarrow> bytes32 \<Rightarrow> tx list \<Rightarrow> address list" where
  "successfulGrantees e s i [] = []"
| "successfulGrantees e s i (t # ts) =
     (case exec e s t of
        Inl err \<Rightarrow> successfulGrantees e s i ts
      | Inr (s', evs) \<Rightarrow> granteeOf i t @ successfulGrantees e s' i ts)"

definition editorsFrom :: "state \<Rightarrow> bytes32 \<Rightarrow> address set \<Rightarrow> bool" where
  "editorsFrom s i A \<longleftrightarrow>
     (\<forall>x. editors s i x \<longrightarrow> x \<noteq> 0 \<longrightarrow> x = owner (documents s i) \<or> x \<in> A)"

definition wornState :: state where
  "wornState = run env0 created0 (replicate 4294967295 (Tx 1 1000 (UpdateEncryptedBody 1 [])))"

definition twoDocs :: state where
  "twoDocs = run env0 initState
     [Tx 1 1000 (CreateDocument ''a'' 7 ''p''), Tx 1 1001 (CreateDocument ''bb'' 8 ''p'')]"

definition sharedState :: state where
  "sharedState = step env0 created0 (Tx 1 1001 (GrantAccess 1 2))"

section \<open>The client cipher\<close>

text \<open>
  A shallow embedding of \<^verbatim>\<open>docCrypto.ts\<close>. A JavaScript string is a list of UTF-16 code
  units, a \<^verbatim>\<open>Uint8Array\<close> a list of bytes, a rejected promise or a thrown exception an
  error value. The random nonce of \<^verbatim>\<open>crypto.getRandomValues\<close> is an argument. The digest
  and the authenticated cipher of \<^verbatim>\<open>crypto.subtle\<close> are parameters (record \<open>crypto\<close>,
  \<open>None\<close> for a rejected operation). The other platform functions the module calls are
  written out after their standards: \<^verbatim>\<open>btoa\<close> and \<^verbatim>\<open>atob\<close> (forgiving base64),
  \<^verbatim>\<open>TextEncoder.encode\<close> (conversion to scalar values, then UTF-8),
  \<^verbatim>\<open>TextDecoder.decode\<close> with its default options (the UTF-8 decoder with replacement,
  not fatal, a leading U+FEFF dropped), \<^verbatim>\<open>String.prototype.split\<close> and
  \<^verbatim>\<open>BigInt.prototype.toString\<close>. Arithmetic on bytes and code units is done on their
  values as natural numbers; the bit operations of the decoder are written as \<open>mod\<close> and
  multiplication.
\<close>

type_synonym byte = "8 word"

type_synonym jsString = "16 word list"

datatype jsError = UnsupportedFormat | InvalidCharacterError | OperationError | DataError

record crypto =
  sha256 :: "byte list \<Rightarrow> byte list"
  aesGcmEncrypt :: "byte list \<Rightarrow> byte list \<Rightarrow> byte list \<Rightarrow> byte list option"
  aesGcmDecrypt :: "byte list \<Rightarrow> byte list \<Rightarrow> byte list \<Rightarrow> byte list option"

definition ascii :: "string \<Rightarrow> jsString" where
  "ascii s = map (\<lambda>c. of_nat (of_char c)) s"

subsection \<open>Base64: \<^verbatim>\<open>btoa\<close>, \<^verbatim>\<open>atob\<close> and the two conversion functions\<close>

definition b64char :: "nat \<Rightarrow> nat" where
  "b64char n = (if n < 26 then 65 + n else if n < 52 then 71 + n
     else if n < 62 then n - 4 else if n = 62 then 43 else 47)"

definition b64index :: "nat \<Rightarrow> nat option" where
  "b64index c = (if 65 \<le> c \<and> c \<le> 90 then Some (c - 65)
     else if 97 \<le> c \<and> c \<le> 122 then Some (c - 71)
     else if 48 \<le> c \<and> c \<le> 57 then Some (c + 4)
     else if c = 43 then Some 62 else if c = 47 then Some 63 else None)"

fun b64encode :: "nat list \<Rightarrow> nat list" where
  "b64encode [] = []"
| "b64encode [a] = [b64char (a div 4), b64char ((a mod 4) * 16), 61, 61]"
| "b64encode [a, b] =
     [b64char (a div 4), b64char ((a mod 4) * 16 + b div 16), b64char ((b mod 16) * 4), 61]"
| "b64encode (a # b # c # rest) =
     [b64char (a div 4), b64char ((a mod 4) * 16 + b div 16),
      b64char ((b mod 16) * 4 + c div 64), b64char (c mod 64)] @ b64encode rest"

definition btoa :: "jsString \<Rightarrow> jsError + jsString" where
  "btoa binary = (if \<exists>c \<in> set binary. 255 < unat c then Inl InvalidCharacterError
     else Inr (map of_nat (b64encode (map unat binary))))"

text \<open>
  \<^verbatim>\<open>atob\<close> is the forgiving decoder: ASCII whitespace is removed; when the length is a
  multiple of four, one or two trailing \<open>=\<close> are removed; a length of the form \<open>4 k + 1\<close>
  or a character outside the alphabet fails; a final group of two or three characters
  gives one or two bytes.
\<close>

definition asciiWhitespace :: "nat \<Rightarrow> bool" where
  "asciiWhitespace c \<longleftrightarrow> c = 9 \<or> c = 10 \<or> c = 12 \<or> c = 13 \<or> c = 32"

definition stripPadding :: "nat list \<Rightarrow> nat list" where
  "stripPadding d = (if length d mod 4 = 0 \<and> d \<noteq> [] \<and> last d = 61 then
       (if butlast d \<noteq> [] \<and> last (butlast d) = 61 then butlast (butlast d) else butlast d)
     else d)"

fun b64decode :: "nat list \<Rightarrow> nat list" where
  "b64decode (a # b # c # d # rest) =
     [a * 4 + b div 16, (b mod 16) * 16 + c div 4, (c mod 4) * 64 + d] @ b64decode rest"
| "b64decode [a, b, c] = [a * 4 + b div 16, (b mod 16) * 16 + c div 4]"
| "b64decode [a, b] = [a * 4 + b div 16]"
| "b64decode [a] = []"
| "b64decode [] = []"

definition atob :: "jsString \<Rightarrow> jsError + jsString" where
  "atob s =
     (let d = stripPadding (filter (\<lambda>c. \<not> asciiWhitespace c) (map unat s)) in
      if length d mod 4 = 1 then Inl InvalidCharacterError
      else if \<exists>c \<in> set d. b64index c = None then Inl InvalidCharacterError
      else Inr (map of_nat (b64decode (map (\<lambda>c. the (b64index c)) d))))"

text \<open>
  \<^verbatim>\<open>bytesToBase64\<close> builds the binary string in chunks of \<open>0x8000\<close> bytes and encodes it;
  \<^verbatim>\<open>base64ToBytes\<close> decodes and stores each character code in a byte array.
\<close>

definition fromCharCode :: "byte list \<Rightarrow> jsString" where
  "fromCharCode bs = map ucast bs"

function binaryLoop :: "byte list \<Rightarrow> nat \<Rightarrow> jsString \<Rightarrow> jsString" where
  "binaryLoop bytes i binary =
     (if i < length bytes
      then binaryLoop bytes (i + 32768) (binary @ fromCharCode (take 32768 (drop i bytes)))
      else binary)"
  by pat_completeness auto

termination
  by (relation "measure (\<lambda>(bytes, i, binary). length bytes - i)") auto

declare binaryLoop.simps [simp del]

definition bytesToBase64 :: "byte list \<Rightarrow> jsError + jsString" where
  "bytesToBase64 bytes = btoa (binaryLoop bytes 0 [])"

function charCodeLoop :: "jsString \<Rightarrow> nat \<Rightarrow> byte list \<Rightarrow> byte list" where
  "charCodeLoop binary i bytes =
     (if i < length binary then charCodeLoop binary (i + 1) (bytes[i := ucast (binary ! i)])
      else bytes)"
  by pat_completeness auto

termination
  by (relation "measure (\<lambda>(binary, i, bytes). length binary - i)") auto

declare charCodeLoop.simps [simp del]

definition base64ToBytes :: "jsString \<Rightarrow> jsError + byte list" where
  "base64ToBytes base64 = (case atob base64 of
       Inl err \<Rightarrow> Inl err
     | Inr binary \<Rightarrow> Inr (charCodeLoop binary 0 (replicate (length binary) 0)))"

subsection \<open>Text: \<^verbatim>\<open>TextEncoder\<close> and \<^verbatim>\<open>TextDecoder\<close>\<close>

text \<open>
  Encoding first converts the code units to scalar values (a surrogate pair gives one
  value above \<open>0xFFFF\<close>, an unpaired surrogate gives U+FFFD), then writes UTF-8.
  Decoding runs the UTF-8 decoder of the Encoding standard, with its state (code point,
  bytes seen, bytes needed, lower and upper boundary) as arguments; a malformed sequence
  gives U+FFFD and the offending byte is read again. The first decoded value is dropped
  when it is U+FEFF.
\<close>

definition isHighSurrogate :: "nat \<Rightarrow> bool" where
  "isHighSurrogate c \<longleftrightarrow> 55296 \<le> c \<and> c \<le> 56319"

definition isLowSurrogate :: "nat \<Rightarrow> bool" where
  "isLowSurrogate c \<longleftrightarrow> 56320 \<le> c \<and> c \<le> 57343"

fun toScalarValues :: "nat list \<Rightarrow> nat list" where
  "toScalarValues [] = []"
| "toScalarValues [c] = [if isHighSurrogate c \<or> isLowSurrogate c then 65533 else c]"
| "toScalarValues (c # d # rest) =
     (if isHighSurrogate c \<and> isLowSurrogate d
      then (65536 + (c - 55296) * 1024 + (d - 56320)) # toScalarValues rest
      else (if isHighSurrogate c \<or> isLowSurrogate c then 65533 else c)
             # toScalarValues (d # rest))"

definition utf8 :: "nat \<Rightarrow> nat list" where
  "utf8 c = (if c < 128 then [c]
     else if c < 2048 then [192 + c div 64, 128 + c mod 64]
     else if c < 65536 then [224 + c div 4096, 128 + (c div 64) mod 64, 128 + c mod 64]
     else [240 + c div 262144, 128 + (c div 4096) mod 64, 128 + (c div 64) mod 64,
           128 + c mod 64])"

definition TextEncoder_encode :: "jsString \<Rightarrow> byte list" where
  "TextEncoder_encode s = map of_nat (concat (map utf8 (toScalarValues (map unat s))))"

function utf8decode :: "nat \<Rightarrow> nat \<Rightarrow> nat \<Rightarrow> nat \<Rightarrow> nat \<Rightarrow> nat list \<Rightarrow> nat list" where
  "utf8decode cp seen needed lower upper [] = (if needed \<noteq> 0 then [65533] else [])"
| "utf8decode cp seen needed lower upper (b # bs) =
     (if needed = 0 then
        (if b \<le> 127 then b # utf8decode cp seen needed lower upper bs
         else if 194 \<le> b \<and> b \<le> 223 then utf8decode (b mod 32) seen 1 lower upper bs
         else if 224 \<le> b \<and> b \<le> 239 then
           utf8decode (b mod 16) seen 2 (if b = 224 then 160 else lower)
             (if b = 237 then 159 else upper) bs
         else if 240 \<le> b \<and> b \<le> 244 then
           utf8decode (b mod 8) seen 3 (if b = 240 then 144 else lower)
             (if b = 244 then 143 else upper) bs
         else 65533 # utf8decode cp seen needed lower upper bs)
      else if \<not> (lower \<le> b \<and> b \<le> upper) then
        65533 # utf8decode 0 0 0 128 191 (b # bs)
      else if seen + 1 \<noteq> needed then
        utf8decode (cp * 64 + b mod 64) (seen + 1) needed 128 191 bs
      else (cp * 64 + b mod 64) # utf8decode 0 0 0 128 191 bs)"
  by pat_completeness auto

termination
  by (relation "measure (\<lambda>(cp, seen, needed, lower, upper, bs).
        2 * length bs + (if needed = 0 then 0 else 1))") auto

definition stripBOM :: "nat list \<Rightarrow> nat list" where
  "stripBOM cs = (case cs of [] \<Rightarrow> [] | c # rest \<Rightarrow> if c = 65279 then rest else cs)"

definition utf16 :: "nat \<Rightarrow> nat list" where
  "utf16 c = (if c < 65536 then [c]
     else [55296 + (c - 65536) div 1024, 56320 + (c - 65536) mod 1024])"

definition TextDecoder_decode :: "byte list \<Rightarrow> jsString" where
  "TextDecoder_decode bytes =
     map of_nat (concat (map utf16 (stripBOM (utf8decode 0 0 0 128 191 (map unat bytes)))))"

subsection \<open>Key derivation, encryption and decryption\<close>

function digits10 :: "nat \<Rightarrow> nat list" where
  "digits10 n = (if n < 10 then [48 + n] else digits10 (n div 10) @ [48 + n mod 10])"
  by pat_completeness auto

termination
  by (relation "measure id") auto

declare digits10.simps [simp del]

definition toString10 :: "int \<Rightarrow> jsString" where
  "toString10 n = map of_nat (if n < 0 then 45 # digits10 (nat (- n)) else digits10 (nat n))"

definition deriveAesKeyFromSecret :: "crypto \<Rightarrow> int \<Rightarrow> jsError + byte list" where
  "deriveAesKeyFromSecret cr secret =
     (let secretBytes = TextEncoder_encode (toString10 secret);
          hash = sha256 cr secretBytes
      in if length hash = 16 \<or> length hash = 24 \<or> length hash = 32 then Inr hash
         else Inl DataError)"

definition encryptDocumentBody ::
  "crypto \<Rightarrow> byte list \<Rightarrow> int \<Rightarrow> jsString \<Rightarrow> jsError + jsString" where
  "encryptDocumentBody cr iv secret plaintext =
     (case deriveAesKeyFromSecret cr secret of
        Inl err \<Rightarrow> Inl err
      | Inr key \<Rightarrow>
          let clearBytes = TextEncoder_encode plaintext in
          (case aesGcmEncrypt cr key iv clearBytes of
             None \<Rightarrow> Inl OperationError
           | Some ciphertext \<Rightarrow>
               (case bytesToBase64 iv of
                  Inl err \<Rightarrow> Inl err
                | Inr a \<Rightarrow>
                    (case bytesToBase64 ciphertext of
                       Inl err \<Rightarrow> Inl err
                     | Inr b \<Rightarrow> Inr (ascii ''v1:'' @ a @ ascii '':'' @ b)))))"

fun split :: "jsString \<Rightarrow> jsString list" where
  "split [] = [[]]"
| "split (c # cs) =
     (if c = 58 then [] # split cs
      else (case split cs of p # ps \<Rightarrow> (c # p) # ps | [] \<Rightarrow> [[c]]))"

definition decryptDocumentBody :: "crypto \<Rightarrow> int \<Rightarrow> jsString \<Rightarrow> jsError + jsString" where
  "decryptDocumentBody cr secret payload =
     (if payload = [] then Inr []
      else let parts = split payload in
        if length parts \<noteq> 3 \<or> parts ! 0 \<noteq> ascii ''v1'' then Inl UnsupportedFormat
        else (case deriveAesKeyFromSecret cr secret of
            Inl err \<Rightarrow> Inl err
          | Inr key \<Rightarrow>
              (case base64ToBytes (parts ! 1) of
                 Inl err \<Rightarrow> Inl err
               | Inr iv \<Rightarrow>
                   (case base64ToBytes (parts ! 2) of
                      Inl err \<Rightarrow> Inl err
                    | Inr ciphertext \<Rightarrow>
                        (case aesGcmDecrypt cr key iv ciphertext of
                           None \<Rightarrow> Inl OperationError
                         | Some clear \<Rightarrow> Inr (TextDecoder_decode clear))))))"

subsection \<open>Assumptions on the platform cipher, and an instance\<close>

text \<open>
  \<open>cryptoSound\<close> is what the module needs from \<^verbatim>\<open>crypto.subtle\<close>: a digest of 32 bytes,
  and a cipher that, for a 32-byte key and a 12-byte nonce, encrypts every input and
  decrypts its own output to that input. \<open>toyCrypto\<close> is a small instance of it (not a
  secure one), used to evaluate the module on concrete inputs. \<open>wellFormed\<close> says that
  a list of code units has no unpaired surrogate; \<open>b64sextets\<close> and \<open>b64pad\<close> split the
  output of the encoder into its alphabet part and its padding.
\<close>

definition toyCrypto :: crypto where
  "toyCrypto = \<lparr>sha256 = (\<lambda>bs. replicate 32 (sum_list bs)),
     aesGcmEncrypt = (\<lambda>key iv clear. Some (map (\<lambda>b. b + 1) clear @ take 16 (iv @ key))),
     aesGcmDecrypt = (\<lambda>key iv ct.
        if length ct \<ge> 16 \<and> drop (length ct - 16) ct = take 16 (iv @ key)
        then Some (map (\<lambda>b. b - 1) (take (length ct - 16) ct)) else None)\<rparr>"

definition iv0 :: "byte list" where
  "iv0 = [1, 2, 3, 4, 5, 6, 7, 8, 9, 10, 11, 12]"

definition scalarValue :: "nat \<Rightarrow> bool" where
  "scalarValue c \<longleftrightarrow> c < 1114112 \<and> \<not> (55296 \<le> c \<and> c \<le> 57343)"

fun wellFormed :: "nat list \<Rightarrow> bool" where
  "wellFormed [] = True"
| "wellFormed [c] = (\<not> (isHighSurrogate c \<or> isLowSurrogate c))"
| "wellFormed (c # d # rest) =
     (if isHighSurrogate c \<and> isLowSurrogate d then wellFormed rest
      else \<not> (isHighSurrogate c \<or> isLowSurrogate c) \<and> wellFormed (d # rest))"

fun b64sextets :: "nat list \<Rightarrow> nat list" where
  "b64sextets [] = []"
| "b64sextets [a] = [a div 4, (a mod 4) * 16]"
| "b64sextets [a, b] = [a div 4, (a mod 4) * 16 + b div 16, (b mod 16) * 4]"
| "b64sextets (a # b # c # rest) =
     [a div 4, (a mod 4) * 16 + b div 16, (b mod 16) * 4 + c div 64, c mod 64] @ b64sextets rest"

fun b64pad :: "nat list \<Rightarrow> nat list" where
  "b64pad [] = []"
| "b64pad [a] = [61, 61]"
| "b64pad [a, b] = [61]"
| "b64pad (a # b # c # rest) = b64pad rest"

definition cryptoSound :: "crypto \<Rightarrow> bool" where
  "cryptoSound cr \<longleftrightarrow>
     (\<forall>x. length (sha256 cr x) = 32) \<and>
     (\<forall>key iv clear. length key = 32 \<longrightarrow> length iv = 12 \<longrightarrow>
        (\<exists>ct. aesGcmEncrypt cr key iv clear = Some ct \<and>
              aesGcmDecrypt cr key iv ct = Some clear))"



section \<open>Properties of the contract\<close>

subsection \<open>What a successful call does\<close>

lemma createDocument_Inr:
  "createDocument e s c ts nm k p = Inr (i, s', evs) \<Longrightarrow>
     nm \<noteq> [] \<and> i = computeDocumentId e nm \<and> owner (documents s i) = 0 \<and>
     (\<exists>key. fromExternal e c k p = Some key \<and>
       s' = s\<lparr>documents := (documents s)(i :=
                    \<lparr>name = nm, encryptedBody = [], encryptedKey = key, owner = c,
                     createdAt = ucast ts, updatedAt = ucast ts, version = 0\<rparr>),
                documentIds := documentIds s @ [i],
                editors := (editors s)(i := (editors s i)(c := True)),
                fheAllowed := (fheAllowed s)(key :=
                    ((fheAllowed s key)(this e := True))(c := True))\<rparr>) \<and>
     evs = [DocumentCreated i c nm]"
  by (auto simp: createDocument_def Let_def split: if_splits option.splits)

lemma updateEncryptedBody_Inr:
  "updateEncryptedBody s c ts i body = Inr (s', evs) \<Longrightarrow>
     owner (documents s i) \<noteq> 0 \<and> editors s i c \<and> unat (version (documents s i)) + 1 < 2 ^ 32 \<and>
     s' = s\<lparr>documents := (documents s)(i :=
              (documents s i)\<lparr>encryptedBody := body, updatedAt := ucast ts,
                 version := version (documents s i) + 1\<rparr>)\<rparr> \<and>
     evs = [DocumentUpdated i c (version (documents s i) + 1)]"
  by (auto simp: updateEncryptedBody_def Let_def split: if_splits)

lemma grantAccess_Inr:
  "grantAccess s c i g = Inr (s', evs) \<Longrightarrow>
     g \<noteq> 0 \<and> owner (documents s i) \<noteq> 0 \<and> owner (documents s i) = c \<and>
     s' = s\<lparr>editors := (editors s)(i := (editors s i)(g := True)),
            fheAllowed := (fheAllowed s)(encryptedKey (documents s i) :=
                (fheAllowed s (encryptedKey (documents s i)))(g := True))\<rparr> \<and>
     evs = [AccessGranted i c g]"
  by (auto simp: grantAccess_def Let_def split: if_splits)

subsection \<open>Versions count updates\<close>

lemma unat_version_suc:
  "unat (v :: uint32) + 1 < 2 ^ 32 \<Longrightarrow> unat (v + 1) = unat v + 1"
  by (simp add: unat_word_ariths)

lemma step_counts:
  assumes "fresh s i"
  shows "fresh (step e s t) i \<and>
    unat (version (documents (step e s t) i)) =
      unat (version (documents s i)) +
        (case exec e s t of Inl err \<Rightarrow> 0 | Inr r \<Rightarrow> length (updateOf i t)) \<and>
    encryptedBody (documents (step e s t) i) =
      (case exec e s t of Inl err \<Rightarrow> encryptedBody (documents s i)
       | Inr r \<Rightarrow> (if updateOf i t = [] then encryptedBody (documents s i) else last (updateOf i t)))"
proof (cases t)
  case (Tx c ts cl)
  show ?thesis
  proof (cases cl)
    case (CreateDocument nm k p)
    show ?thesis
    proof (cases "createDocument e s c ts nm k p")
      case (Inl err)
      then show ?thesis using assms Tx CreateDocument by (simp add: step_def)
    next
      case (Inr r)
      obtain j s' evs where r: "r = (j, s', evs)" by (cases r) auto
      from createDocument_Inr [OF Inr [unfolded r]] assms
      show ?thesis using Tx CreateDocument Inr r
        by (auto simp: step_def fresh_def)
    qed
  next
    case (UpdateEncryptedBody j body)
    show ?thesis
    proof (cases "updateEncryptedBody s c ts j body")
      case (Inl err)
      then show ?thesis using assms Tx UpdateEncryptedBody by (simp add: step_def)
    next
      case (Inr r)
      obtain s' evs where r: "r = (s', evs)" by (cases r) auto
      from updateEncryptedBody_Inr [OF Inr [unfolded r]] assms
      show ?thesis using Tx UpdateEncryptedBody Inr r
        by (auto simp: step_def fresh_def unat_version_suc)
    qed
  next
    case (GrantAccess j g)
    show ?thesis
    proof (cases "grantAccess s c j g")
      case (Inl err)
      then show ?thesis using assms Tx GrantAccess by (simp add: step_def)
    next
      case (Inr r)
      obtain s' evs where r: "r = (s', evs)" by (cases r) auto
      from grantAccess_Inr [OF Inr [unfolded r]] assms
      show ?thesis using Tx GrantAccess Inr r
        by (auto simp: step_def fresh_def)
    qed
  qed
qed

lemma successfulUpdates_step:
  "successfulUpdates e s i (t # ts) =
     (case exec e s t of Inl err \<Rightarrow> [] | Inr r \<Rightarrow> updateOf i t) @
       successfulUpdates e (step e s t) i ts"
  by (auto simp: step_def split: sum.splits)

lemma run_counts:
  "fresh s i \<Longrightarrow>
     unat (version (documents (run e s txs) i)) =
       unat (version (documents s i)) + length (successfulUpdates e s i txs) \<and>
     encryptedBody (documents (run e s txs) i) =
       (if successfulUpdates e s i txs = [] then encryptedBody (documents s i)
        else last (successfulUpdates e s i txs))"
proof (induction txs arbitrary: s)
  case Nil
  then show ?case by simp
next
  case (Cons t txs)
  note st = step_counts [OF Cons.prems, of e t]
  from st have fr: "fresh (step e s t) i" by simp
  note ih = Cons.IH [OF fr]
  show ?case
    unfolding successfulUpdates_step run.simps
    using ih st by (auto split: sum.splits)
qed

text \<open>
  Claim C1. A document that \<open>createDocument\<close> has just created has version 0 and an
  empty body. After any later transactions, its version is the number of successful
  \<open>updateEncryptedBody\<close> calls on it, and its body is the body written by the last of
  them (still empty when there was none).
\<close>

theorem version_counts_updates:
  assumes "createDocument e s c ts nm k p = Inr (i, s0, evs)"
  shows "version (documents s0 i) = 0 \<and> encryptedBody (documents s0 i) = [] \<and>
    (\<forall>txs. unat (version (documents (run e s0 txs) i)) = length (successfulUpdates e s0 i txs) \<and>
       encryptedBody (documents (run e s0 txs) i) =
         (if successfulUpdates e s0 i txs = [] then [] else last (successfulUpdates e s0 i txs)))"
proof -
  from createDocument_Inr [OF assms]
  have v: "version (documents s0 i) = 0" and b: "encryptedBody (documents s0 i) = []"
    by auto
  then have "fresh s0 i" by (simp add: fresh_def)
  from run_counts [OF this] v b show ?thesis by simp
qed

lemma create0: "createDocument env0 initState 1 1000 ''a'' 7 ''p'' =
   Inr (1, created0, [DocumentCreated 1 1 ''a''])"
  by (simp add: created0_def step_def createDocument_def computeDocumentId_def env0_def
      initState_def zeroDocument_def)

lemma created0_eq: "created0 = \<lparr>documents = (\<lambda>_. zeroDocument)(1 :=
                    \<lparr>name = ''a'', encryptedBody = [], encryptedKey = 7, owner = 1,
                     createdAt = 1000, updatedAt = 1000, version = 0\<rparr>),
                editors = (\<lambda>_ _. False)(1 := (\<lambda>_. False)(1 := True)),
                documentIds = [1],
                fheAllowed = (\<lambda>_ _. False)(7 := ((\<lambda>_. False)(4096 := True))(1 := True))\<rparr>"
  by (simp add: created0_def step_def createDocument_def computeDocumentId_def env0_def
      initState_def zeroDocument_def)

theorem version_counts_updates_witness:
  "createDocument env0 initState 1 1000 ''a'' 7 ''p'' =
     Inr (1, created0, [DocumentCreated 1 1 ''a'']) \<and>
   unat (version (documents (run env0 created0
     [Tx 1 1001 (UpdateEncryptedBody 1 ''x''), Tx 2 1002 (UpdateEncryptedBody 1 ''y''),
      Tx 1 1003 (UpdateEncryptedBody 1 ''z'')]) 1)) = 2 \<and>
   encryptedBody (documents (run env0 created0
     [Tx 1 1001 (UpdateEncryptedBody 1 ''x''), Tx 2 1002 (UpdateEncryptedBody 1 ''y''),
      Tx 1 1003 (UpdateEncryptedBody 1 ''z'')]) 1) = ''z''"
proof -
  have su: "successfulUpdates env0 created0 1
     [Tx 1 1001 (UpdateEncryptedBody 1 ''x''), Tx 2 1002 (UpdateEncryptedBody 1 ''y''),
      Tx 1 1003 (UpdateEncryptedBody 1 ''z'')] = [''x'', ''z'']"
    by (simp add: created0_eq updateEncryptedBody_def Let_def)
  have "unat (version (documents (run env0 created0
     [Tx 1 1001 (UpdateEncryptedBody 1 ''x''), Tx 2 1002 (UpdateEncryptedBody 1 ''y''),
      Tx 1 1003 (UpdateEncryptedBody 1 ''z'')]) 1)) = length [''x'', ''z''] \<and>
   encryptedBody (documents (run env0 created0
     [Tx 1 1001 (UpdateEncryptedBody 1 ''x''), Tx 2 1002 (UpdateEncryptedBody 1 ''y''),
      Tx 1 1003 (UpdateEncryptedBody 1 ''z'')]) 1) =
     (if [''x'', ''z''] = [] then [] else last [''x'', ''z''])"
    using version_counts_updates [OF create0] unfolding su [symmetric] by blast
  then show ?thesis
    using create0 by (simp del: run.simps)
qed

subsection \<open>One transaction, by cases; what no transaction changes\<close>

lemma step_cases:
  obtains (reverted) err where "exec e s t = Inl err" "step e s t = s"
  | (created) c ts nm k p key where
      "t = Tx c ts (CreateDocument nm k p)" "nm \<noteq> []"
      "owner (documents s (computeDocumentId e nm)) = 0"
      "fromExternal e c k p = Some key"
      "step e s t = s\<lparr>documents := (documents s)(computeDocumentId e nm :=
                    \<lparr>name = nm, encryptedBody = [], encryptedKey = key, owner = c,
                     createdAt = ucast ts, updatedAt = ucast ts, version = 0\<rparr>),
                documentIds := documentIds s @ [computeDocumentId e nm],
                editors := (editors s)(computeDocumentId e nm :=
                    (editors s (computeDocumentId e nm))(c := True)),
                fheAllowed := (fheAllowed s)(key :=
                    ((fheAllowed s key)(this e := True))(c := True))\<rparr>"
  | (updated) c ts j body where
      "t = Tx c ts (UpdateEncryptedBody j body)" "owner (documents s j) \<noteq> 0" "editors s j c"
      "unat (version (documents s j)) + 1 < 2 ^ 32"
      "step e s t = s\<lparr>documents := (documents s)(j :=
              (documents s j)\<lparr>encryptedBody := body, updatedAt := ucast ts,
                 version := version (documents s j) + 1\<rparr>)\<rparr>"
  | (granted) c ts j g where
      "t = Tx c ts (GrantAccess j g)" "g \<noteq> 0" "owner (documents s j) = c" "c \<noteq> 0"
      "step e s t = s\<lparr>editors := (editors s)(j := (editors s j)(g := True)),
            fheAllowed := (fheAllowed s)(encryptedKey (documents s j) :=
                (fheAllowed s (encryptedKey (documents s j)))(g := True))\<rparr>"
proof (cases "exec e s t")
  case (Inl err)
  then show ?thesis using reverted by (simp add: step_def)
next
  case (Inr r)
  obtain s' evs where r: "r = (s', evs)" by (cases r) auto
  have st: "step e s t = s'" using Inr r by (simp add: step_def)
  obtain c ts cl where t: "t = Tx c ts cl" by (cases t) auto
  show ?thesis
  proof (cases cl)
    case (CreateDocument nm k p)
    from Inr r t CreateDocument obtain i where
      "createDocument e s c ts nm k p = Inr (i, s', evs)"
      by (auto split: sum.splits)
    from createDocument_Inr [OF this] show ?thesis
      using created [of c ts nm k p] t CreateDocument st by auto
  next
    case (UpdateEncryptedBody j body)
    from Inr r t UpdateEncryptedBody have "updateEncryptedBody s c ts j body = Inr (s', evs)"
      by simp
    from updateEncryptedBody_Inr [OF this] show ?thesis
      using updated [of c ts j body] t UpdateEncryptedBody st by auto
  next
    case (GrantAccess j g)
    from Inr r t GrantAccess have "grantAccess s c j g = Inr (s', evs)"
      by simp
    from grantAccess_Inr [OF this] show ?thesis
      using granted [of c ts j g] t GrantAccess st by auto
  qed
qed

lemma step_frame:
  "owner (documents s i) \<noteq> 0 \<Longrightarrow>
     name (documents (step e s t) i) = name (documents s i) \<and>
     owner (documents (step e s t) i) = owner (documents s i) \<and>
     createdAt (documents (step e s t) i) = createdAt (documents s i) \<and>
     encryptedKey (documents (step e s t) i) = encryptedKey (documents s i)"
  by (cases rule: step_cases [of e s t]) auto

lemma step_editors_mono: "editors s i x \<Longrightarrow> editors (step e s t) i x"
  by (cases rule: step_cases [of e s t]) auto

lemma step_fheAllowed_mono: "fheAllowed s h a \<Longrightarrow> fheAllowed (step e s t) h a"
  by (cases rule: step_cases [of e s t]) auto

lemma step_documentIds: "\<exists>ys. documentIds (step e s t) = documentIds s @ ys"
  by (cases rule: step_cases [of e s t]) auto

lemma run_frame:
  "owner (documents s i) \<noteq> 0 \<Longrightarrow>
     name (documents (run e s txs) i) = name (documents s i) \<and>
     owner (documents (run e s txs) i) = owner (documents s i) \<and>
     createdAt (documents (run e s txs) i) = createdAt (documents s i) \<and>
     encryptedKey (documents (run e s txs) i) = encryptedKey (documents s i)"
proof (induction txs arbitrary: s)
  case Nil
  show ?case by simp
next
  case (Cons t txs)
  from step_frame [OF Cons.prems, of e t]
  have eqs: "name (documents (step e s t) i) = name (documents s i)"
    "owner (documents (step e s t) i) = owner (documents s i)"
    "createdAt (documents (step e s t) i) = createdAt (documents s i)"
    "encryptedKey (documents (step e s t) i) = encryptedKey (documents s i)"
    by simp_all
  with Cons.prems have "owner (documents (step e s t) i) \<noteq> 0" by simp
  from Cons.IH [OF this] eqs show ?case by simp
qed

lemma run_editors_mono: "editors s i x \<Longrightarrow> editors (run e s txs) i x"
  by (induction txs arbitrary: s) (auto intro: step_editors_mono)

lemma run_fheAllowed_mono: "fheAllowed s h a \<Longrightarrow> fheAllowed (run e s txs) h a"
  by (induction txs arbitrary: s) (auto intro: step_fheAllowed_mono)

lemma run_documentIds: "\<exists>ys. documentIds (run e s txs) = documentIds s @ ys"
proof (induction txs arbitrary: s)
  case Nil
  show ?case by simp
next
  case (Cons t txs)
  from step_documentIds [of e s t] obtain ys where
    ys: "documentIds (step e s t) = documentIds s @ ys" by blast
  from Cons.IH [of "step e s t"] obtain zs where
    "documentIds (run e (step e s t) txs) = documentIds (step e s t) @ zs" by blast
  with ys show ?case by simp
qed

text \<open>
  Claim C2. For a non-empty name that is not yet taken, with an encrypted input that
  the FHE library accepts and a caller that is not the zero address, \<open>createDocument\<close>
  succeeds; any later \<open>createDocument\<close> with the same name, by any caller, reverts with
  \<open>DocumentAlreadyExists\<close> of the name's id and leaves the storage as it was, with the
  owner and the creation time of the first call.
\<close>

theorem duplicate_create_rejected:
  assumes "nm \<noteq> []" and "owner (documents s (computeDocumentId e nm)) = 0"
    and "fromExternal e c1 k1 p1 = Some key" and "c1 \<noteq> 0"
    and "s1 = step e s (Tx c1 t1 (CreateDocument nm k1 p1))"
    and "s2 = run e s1 txs"
  shows "createDocument e s c1 t1 nm k1 p1 =
           Inr (computeDocumentId e nm, s1, [DocumentCreated (computeDocumentId e nm) c1 nm]) \<and>
         createDocument e s2 c2 t2 nm k2 p2 =
           Inl (DocumentAlreadyExists (computeDocumentId e nm)) \<and>
         step e s2 (Tx c2 t2 (CreateDocument nm k2 p2)) = s2 \<and>
         owner (documents s2 (computeDocumentId e nm)) = c1 \<and>
         createdAt (documents s2 (computeDocumentId e nm)) = ucast t1"
proof -
  let ?i = "computeDocumentId e nm"
  have first: "createDocument e s c1 t1 nm k1 p1 = Inr (?i, s1, [DocumentCreated ?i c1 nm])"
    using assms(1-3,5) by (simp add: createDocument_def step_def Let_def)
  from createDocument_Inr [OF first]
  have o1: "owner (documents s1 ?i) = c1" and c1: "createdAt (documents s1 ?i) = ucast t1"
    using assms(3) by auto
  from o1 assms(4) have "owner (documents s1 ?i) \<noteq> 0" by simp
  from run_frame [OF this, of e txs] o1 c1 assms(6)
  have o2: "owner (documents s2 ?i) = c1" and c2: "createdAt (documents s2 ?i) = ucast t1"
    by simp_all
  from o2 assms(1,4)
  have second: "createDocument e s2 c2 t2 nm k2 p2 = Inl (DocumentAlreadyExists ?i)"
    by (simp add: createDocument_def)
  then have "step e s2 (Tx c2 t2 (CreateDocument nm k2 p2)) = s2"
    by (simp add: step_def)
  with first second o2 c2 show ?thesis by simp
qed

text \<open>
  Claim C4. \<open>grantAccess\<close> checks its guards in the order of the source: a zero grantee
  gives \<open>InvalidAddress\<close>; otherwise a document that does not exist gives
  \<open>DocumentNotFound\<close>; otherwise a caller that is not the owner gives \<open>NotOwner\<close>,
  whatever the editor table says about that caller.
\<close>

theorem grantAccess_guards:
  "grantAccess s c i 0 = Inl InvalidAddress \<and>
   (g \<noteq> 0 \<longrightarrow> owner (documents s i) = 0 \<longrightarrow> grantAccess s c i g = Inl (DocumentNotFound i)) \<and>
   (g \<noteq> 0 \<longrightarrow> owner (documents s i) \<noteq> 0 \<longrightarrow> c \<noteq> owner (documents s i) \<longrightarrow>
      grantAccess s c i g = Inl (NotOwner i c))"
  by (auto simp: grantAccess_def Let_def)

text \<open>
  Claim C8. Whatever transactions run, every existing document keeps its name, owner,
  creation time and key handle; no editor entry is removed; and the id registry only
  grows at its end.
\<close>

theorem only_body_and_permissions_change:
  "(\<forall>i. owner (documents s i) \<noteq> 0 \<longrightarrow>
      name (documents (run e s txs) i) = name (documents s i) \<and>
      owner (documents (run e s txs) i) = owner (documents s i) \<and>
      createdAt (documents (run e s txs) i) = createdAt (documents s i) \<and>
      encryptedKey (documents (run e s txs) i) = encryptedKey (documents s i)) \<and>
   (\<forall>i x. editors s i x \<longrightarrow> editors (run e s txs) i x) \<and>
   (\<exists>ys. documentIds (run e s txs) = documentIds s @ ys)"
  using run_frame [of s _ e txs] run_editors_mono [of s _ _ e txs] run_documentIds [of e s txs]
  by blast

lemma grantAccess_again:
  assumes "owner (documents s i) = c" "c \<noteq> 0" "g \<noteq> 0" "editors s i g"
    "fheAllowed s (encryptedKey (documents s i)) g"
  shows "grantAccess s c i g = Inr (s, [AccessGranted i c g])"
proof -
  from assms(4) have "(editors s)(i := (editors s i)(g := True)) = editors s"
    by (auto simp: fun_eq_iff)
  moreover from assms(5)
  have "(fheAllowed s)(encryptedKey (documents s i) :=
          (fheAllowed s (encryptedKey (documents s i)))(g := True)) = fheAllowed s"
    by (auto simp: fun_eq_iff)
  ultimately show ?thesis using assms(1-3) by (simp add: grantAccess_def)
qed

text \<open>
  Claim C9. After a successful \<open>grantAccess\<close> to a grantee, and whatever transactions
  follow, the same grant by the same caller succeeds again and returns the storage it
  started from: the editor table and the documents are unchanged.
\<close>

theorem grantAccess_idempotent:
  assumes "grantAccess s c i g = Inr (s1, evs)" and "s2 = run e s1 txs"
  shows "grantAccess s2 c i g = Inr (s2, evs) \<and>
    editors s2 = editors (step e s2 (Tx c ts (GrantAccess i g))) \<and>
    documents s2 = documents (step e s2 (Tx c ts (GrantAccess i g)))"
proof -
  from grantAccess_Inr [OF assms(1)]
  have g: "g \<noteq> 0" and o: "owner (documents s i) = c" and c: "c \<noteq> 0"
    and s1: "s1 = s\<lparr>editors := (editors s)(i := (editors s i)(g := True)),
            fheAllowed := (fheAllowed s)(encryptedKey (documents s i) :=
                (fheAllowed s (encryptedKey (documents s i)))(g := True))\<rparr>"
    and evs: "evs = [AccessGranted i c g]"
    by auto
  from s1 o c have o1: "owner (documents s1 i) \<noteq> 0" and o1': "owner (documents s1 i) = c"
    and ed1: "editors s1 i g"
    and al1: "fheAllowed s1 (encryptedKey (documents s1 i)) g"
    by simp_all
  from run_frame [OF o1, of e txs] assms(2) o1'
  have o2: "owner (documents s2 i) = c"
    and k2: "encryptedKey (documents s2 i) = encryptedKey (documents s1 i)"
    by simp_all
  from run_editors_mono [OF ed1, of e txs] assms(2) have ed2: "editors s2 i g" by simp
  from run_fheAllowed_mono [OF al1, of e txs] assms(2) k2
  have al2: "fheAllowed s2 (encryptedKey (documents s2 i)) g" by simp
  from grantAccess_again [OF o2 c g ed2 al2] evs
  have again: "grantAccess s2 c i g = Inr (s2, evs)" by simp
  then have "step e s2 (Tx c ts (GrantAccess i g)) = s2" by (simp add: step_def)
  with again show ?thesis by simp
qed

subsection \<open>Existence and the owner field\<close>

lemma consistent_init: "consistent initState"
  by (simp add: consistent_def initState_def zeroDocument_def)

lemma consistent_step:
  assumes "consistent s" "txSender t \<noteq> 0"
  shows "consistent (step e s t)"
proof (cases rule: step_cases [of e s t])
  case (reverted err)
  with assms show ?thesis by simp
next
  case (created c ts nm k p key)
  with assms have "c \<noteq> 0" by simp
  with assms(1) created show ?thesis
    unfolding consistent_def by auto
next
  case (updated c ts j body)
  with assms(1) show ?thesis
    unfolding consistent_def by auto
next
  case (granted c ts j g)
  with assms(1) show ?thesis
    unfolding consistent_def by auto
qed

lemma consistent_run:
  "consistent s \<Longrightarrow> \<forall>t \<in> set txs. txSender t \<noteq> 0 \<Longrightarrow> consistent (run e s txs)"
  by (induction txs arbitrary: s) (auto intro: consistent_step)

text \<open>
  Claim C10. In every state reached from the empty contract by transactions whose
  callers are not the zero address, an id is in the registry exactly when its stored
  owner is not zero, and an id with a zero owner has the all-zero record and no editor.
  \<open>getDocument\<close> and \<open>updateEncryptedBody\<close> revert with \<open>DocumentNotFound\<close> exactly
  when the stored owner is zero, and so does \<open>grantAccess\<close> for a non-zero grantee.
\<close>

theorem existence_iff_owner_nonzero:
  assumes "\<forall>t \<in> set txs. txSender t \<noteq> 0" and "s = run e initState txs"
  shows "(i \<in> set (documentIds s) \<longleftrightarrow> owner (documents s i) \<noteq> 0) \<and>
    (owner (documents s i) = 0 \<longrightarrow> documents s i = zeroDocument \<and> (\<forall>x. \<not> isEditor s i x)) \<and>
    (getDocument s i = Inl (DocumentNotFound i) \<longleftrightarrow> owner (documents s i) = 0) \<and>
    ((\<exists>d. getDocument s i = Inr d) \<longleftrightarrow> owner (documents s i) \<noteq> 0) \<and>
    (updateEncryptedBody s c ts i body = Inl (DocumentNotFound i)
       \<longleftrightarrow> owner (documents s i) = 0) \<and>
    (g \<noteq> 0 \<longrightarrow> (grantAccess s c i g = Inl (DocumentNotFound i)
       \<longleftrightarrow> owner (documents s i) = 0))"
proof -
  from consistent_run [OF consistent_init assms(1), of e] assms(2)
  have "consistent s" by simp
  then have a: "i \<in> set (documentIds s) \<longleftrightarrow> owner (documents s i) \<noteq> 0"
    and b: "owner (documents s i) = 0 \<longrightarrow>
       documents s i = zeroDocument \<and> (\<forall>x. \<not> isEditor s i x)"
    unfolding consistent_def isEditor_def by blast+
  have c: "getDocument s i = Inl (DocumentNotFound i) \<longleftrightarrow> owner (documents s i) = 0"
    "(\<exists>d. getDocument s i = Inr d) \<longleftrightarrow> owner (documents s i) \<noteq> 0"
    by (simp_all add: getDocument_def Let_def)
  have d: "updateEncryptedBody s c ts i body = Inl (DocumentNotFound i)
       \<longleftrightarrow> owner (documents s i) = 0"
    by (simp add: updateEncryptedBody_def Let_def)
  have e: "g \<noteq> 0 \<longrightarrow> (grantAccess s c i g = Inl (DocumentNotFound i)
       \<longleftrightarrow> owner (documents s i) = 0)"
    by (simp add: grantAccess_def Let_def)
  from a b c d e show ?thesis by blast
qed

subsection \<open>Editors\<close>

lemma successfulGrantees_step:
  "successfulGrantees e s i (t # ts) =
     (case exec e s t of Inl err \<Rightarrow> [] | Inr r \<Rightarrow> granteeOf i t) @
       successfulGrantees e (step e s t) i ts"
  by (auto simp: step_def split: sum.splits)

lemma editorsFrom_step:
  assumes "editorsFrom s i A"
  shows "editorsFrom (step e s t) i
           (A \<union> set (case exec e s t of Inl err \<Rightarrow> [] | Inr r \<Rightarrow> granteeOf i t))"
proof (cases rule: step_cases [of e s t])
  case (reverted err)
  with assms show ?thesis by (simp add: editorsFrom_def)
next
  case (created c ts nm k p key)
  with assms show ?thesis
    by (auto simp: editorsFrom_def)
next
  case (updated c ts j body)
  with assms show ?thesis
    by (auto simp: editorsFrom_def)
next
  case (granted c ts j g)
  have "exec e s t \<noteq> Inl err" for err
    using granted(1,2,3,4) by (auto simp: grantAccess_def Let_def)
  then obtain r where "exec e s t = Inr r" by (cases "exec e s t") auto
  with granted assms show ?thesis
    by (auto simp: editorsFrom_def)
qed

lemma editorsFrom_run:
  "editorsFrom s i A \<Longrightarrow>
     editorsFrom (run e s txs) i (A \<union> set (successfulGrantees e s i txs))"
proof (induction txs arbitrary: s A)
  case Nil
  then show ?case by simp
next
  case (Cons t txs)
  from Cons.IH [OF editorsFrom_step [OF Cons.prems, of e t]]
  show ?case
    unfolding successfulGrantees_step run.simps by (simp add: Un_assoc)
qed

text \<open>
  Claim C3, amended. The creator is an editor right after creation. After a successful
  \<open>grantAccess\<close> to \<open>x\<close>, and whatever transactions follow, \<open>x\<close> is an editor, and an
  \<open>updateEncryptedBody\<close> by \<open>x\<close> succeeds as long as the version counter is below
  \<open>2 ^ 32 - 1\<close>. From the empty contract, a non-zero caller that is neither the owner
  of an existing document nor the grantee of a successful grant on it gets \<open>NotEditor\<close>.
\<close>

theorem editors_may_update:
  "(createDocument e s c ts nm k p = Inr (i, s0, evs) \<longrightarrow> isEditor s0 i c) \<and>
   (grantAccess sg cg ig x = Inr (s1, evs') \<longrightarrow>
      isEditor (run e s1 txs) ig x \<and>
      (unat (version (documents (run e s1 txs) ig)) + 1 < 2 ^ 32 \<longrightarrow>
         (\<exists>s' evs''. updateEncryptedBody (run e s1 txs) x ts' ig body = Inr (s', evs'')))) \<and>
   (owner (documents (run e initState txs') j) \<noteq> 0 \<longrightarrow> y \<noteq> 0 \<longrightarrow>
      y \<noteq> owner (documents (run e initState txs') j) \<longrightarrow>
      y \<notin> set (successfulGrantees e initState j txs') \<longrightarrow>
      updateEncryptedBody (run e initState txs') y ts'' j body' = Inl (NotEditor j y))"
proof (intro conjI impI)
  assume "createDocument e s c ts nm k p = Inr (i, s0, evs)"
  from createDocument_Inr [OF this] show "isEditor s0 i c"
    by (auto simp: isEditor_def)
next
  assume g: "grantAccess sg cg ig x = Inr (s1, evs')"
  from grantAccess_Inr [OF g] have "editors s1 ig x" by auto
  from run_editors_mono [OF this] show "isEditor (run e s1 txs) ig x"
    by (simp add: isEditor_def)
next
  assume g: "grantAccess sg cg ig x = Inr (s1, evs')"
    and v: "unat (version (documents (run e s1 txs) ig)) + 1 < 2 ^ 32"
  from grantAccess_Inr [OF g] have ed: "editors s1 ig x" and o: "owner (documents s1 ig) \<noteq> 0"
    by auto
  from run_editors_mono [OF ed] have "editors (run e s1 txs) ig x" .
  moreover from run_frame [OF o, of e txs] o have "owner (documents (run e s1 txs) ig) \<noteq> 0"
    by simp
  ultimately show "\<exists>s' evs''. updateEncryptedBody (run e s1 txs) x ts' ig body = Inr (s', evs'')"
    using v by (simp add: updateEncryptedBody_def Let_def)
next
  assume o: "owner (documents (run e initState txs') j) \<noteq> 0" and y: "y \<noteq> 0"
    and n: "y \<noteq> owner (documents (run e initState txs') j)"
    and ng: "y \<notin> set (successfulGrantees e initState j txs')"
  have "editorsFrom initState j {}"
    by (simp add: editorsFrom_def initState_def)
  from editorsFrom_run [OF this, of e txs'] y n ng
  have "\<not> editors (run e initState txs') j y"
    by (auto simp: editorsFrom_def)
  with o show "updateEncryptedBody (run e initState txs') y ts'' j body' = Inl (NotEditor j y)"
    by (simp add: updateEncryptedBody_def Let_def)
qed

lemma run_replicate_update:
  "owner (documents s i) \<noteq> 0 \<Longrightarrow> editors s i c \<Longrightarrow>
   unat (version (documents s i)) + n < 2 ^ 32 \<Longrightarrow>
   encryptedBody (documents s i) = b \<Longrightarrow> updatedAt (documents s i) = ucast ts \<Longrightarrow>
   run e s (replicate n (Tx c ts (UpdateEncryptedBody i b))) =
     s\<lparr>documents := (documents s)(i :=
         (documents s i)\<lparr>version := version (documents s i) + of_nat n\<rparr>)\<rparr>"
proof (induction n arbitrary: s)
  case 0
  then show ?case by simp
next
  case (Suc n)
  let ?s = "s\<lparr>documents := (documents s)(i :=
         (documents s i)\<lparr>version := version (documents s i) + 1\<rparr>)\<rparr>"
  from Suc.prems have v: "unat (version (documents s i)) + 1 < 2 ^ 32" by simp
  have same: "(documents s i)\<lparr>encryptedBody := b, updatedAt := ucast ts, version := w\<rparr> =
      (documents s i)\<lparr>version := w\<rparr>" for w
    using Suc.prems(4,5) by (cases "documents s i") simp
  have st: "step e s (Tx c ts (UpdateEncryptedBody i b)) = ?s"
    using Suc.prems(1,2) v by (simp add: step_def updateEncryptedBody_def Let_def same)
  have "unat (version (documents ?s i)) + n < 2 ^ 32"
    using Suc.prems(3) unat_version_suc [OF v] by simp
  have ih: "run e ?s (replicate n (Tx c ts (UpdateEncryptedBody i b))) =
     ?s\<lparr>documents := (documents ?s)(i :=
         (documents ?s i)\<lparr>version := version (documents ?s i) + of_nat n\<rparr>)\<rparr>"
    by (rule Suc.IH) (use Suc.prems(1,2,4,5) \<open>unat (version (documents ?s i)) + n < 2 ^ 32\<close>
        in simp_all)
  have eq: "?s\<lparr>documents := (documents ?s)(i :=
         (documents ?s i)\<lparr>version := version (documents ?s i) + of_nat n\<rparr>)\<rparr> =
     s\<lparr>documents := (documents s)(i :=
         (documents s i)\<lparr>version := version (documents s i) + of_nat (Suc n)\<rparr>)\<rparr>"
    by (simp add: add.assoc)
  have "run e s (replicate (Suc n) (Tx c ts (UpdateEncryptedBody i b))) =
      run e (step e s (Tx c ts (UpdateEncryptedBody i b)))
        (replicate n (Tx c ts (UpdateEncryptedBody i b)))"
    by simp
  also have "\<dots> = run e ?s (replicate n (Tx c ts (UpdateEncryptedBody i b)))"
    by (simp only: st)
  also note ih
  also note eq
  finally show ?case .
qed

lemma wornState_eq:
  "wornState = \<lparr>documents = (\<lambda>_. zeroDocument)(1 :=
                    \<lparr>name = ''a'', encryptedBody = [], encryptedKey = 7, owner = 1,
                     createdAt = 1000, updatedAt = 1000, version = 4294967295\<rparr>),
                editors = (\<lambda>_ _. False)(1 := (\<lambda>_. False)(1 := True)),
                documentIds = [1],
                fheAllowed = (\<lambda>_ _. False)(7 := ((\<lambda>_. False)(4096 := True))(1 := True))\<rparr>"
proof -
  have "run env0 created0 (replicate 4294967295 (Tx 1 1000 (UpdateEncryptedBody 1 []))) =
     created0\<lparr>documents := (documents created0)(1 :=
         (documents created0 1)\<lparr>version := version (documents created0 1) + of_nat 4294967295\<rparr>)\<rparr>"
    by (rule run_replicate_update) (simp_all add: created0_eq)
  then show ?thesis by (simp add: wornState_def created0_eq)
qed

text \<open>
  Claim C3 as stated fails once the 32-bit version counter is full: the state
  \<open>wornState\<close> is reached from a created document by \<open>2 ^ 32 - 1\<close> updates
  (lemma \<open>wornState_eq\<close>); there the owner grants access to account 2, account 2 is an
  editor, and its update reverts with the overflow panic of the checked increment.
\<close>

theorem granted_editor_update_reverts:
  "grantAccess wornState 1 1 2 =
     Inr (step env0 wornState (Tx 1 1001 (GrantAccess 1 2)), [AccessGranted 1 1 2]) \<and>
   isEditor (step env0 wornState (Tx 1 1001 (GrantAccess 1 2))) 1 2 \<and>
   updateEncryptedBody (step env0 wornState (Tx 1 1001 (GrantAccess 1 2))) 2 1002 1 ''x'' =
     Inl (Panic 17)"
  by (simp add: wornState_eq step_def grantAccess_def updateEncryptedBody_def isEditor_def Let_def)

subsection \<open>Pagination\<close>

text \<open>
  As long as \<open>offset + limit\<close> does not overflow, \<^verbatim>\<open>getDocumentIds\<close> returns the slice
  of the registry that starts at \<open>offset\<close> and has at most \<open>limit\<close> ids.
\<close>

lemma copyIds_slice:
  "offset \<le> i \<Longrightarrow> i \<le> stop \<Longrightarrow> stop \<le> length src \<Longrightarrow> length ids = stop - offset \<Longrightarrow>
   copyIds src offset stop i ids = Inr (take (i - offset) ids @ take (stop - i) (drop i src))"
proof (induction src offset stop i ids rule: copyIds.induct)
  case (1 src offset stop i ids)
  show ?case
  proof (cases "i < stop")
    case False
    with "1.prems" show ?thesis by (simp add: copyIds.simps [of src offset stop i ids])
  next
    case True
    with "1.prems" have a: "\<not> i < offset" and b: "\<not> (length ids \<le> i - offset \<or> length src \<le> i)"
      by auto
    have ih: "copyIds src offset stop (i + 1) (ids[i - offset := src ! i]) =
        Inr (take (i + 1 - offset) (ids[i - offset := src ! i]) @
             take (stop - (i + 1)) (drop (i + 1) src))"
      by (rule "1.IH" [OF True a b]) (use True "1.prems" in simp_all)
    have t1: "take (i + 1 - offset) (ids[i - offset := src ! i]) =
        take (i - offset) ids @ [src ! i]"
      using b "1.prems"(1) by (simp add: Suc_diff_le take_Suc_conv_app_nth)
    have t2: "take (stop - i) (drop i src) = src ! i # take (stop - (i + 1)) (drop (i + 1) src)"
    proof -
      from True have "stop - i = Suc (stop - (i + 1))" by simp
      moreover from b have "drop i src = src ! i # drop (i + 1) src"
        by (simp add: Cons_nth_drop_Suc)
      ultimately show ?thesis by simp
    qed
    show ?thesis
      using True a b ih t1 t2 by (simp add: copyIds.simps [of src offset stop i ids])
  qed
qed

lemma getDocumentIds_slice:
  assumes "unat offset + unat limit < 2 ^ 256"
  shows "getDocumentIds s offset limit =
    Inr (take (unat limit) (drop (unat offset) (documentIds s)))"
proof (cases "unat offset \<ge> length (documentIds s)")
  case True
  then show ?thesis by (simp add: getDocumentIds_def)
next
  case False
  define stop where "stop = (if unat offset + unat limit > length (documentIds s)
     then length (documentIds s) else unat offset + unat limit)"
  have "copyIds (documentIds s) (unat offset) stop (unat offset)
          (replicate (stop - unat offset) 0) =
        Inr (take (unat offset - unat offset) (replicate (stop - unat offset) 0) @
             take (stop - unat offset) (drop (unat offset) (documentIds s)))"
    by (rule copyIds_slice) (use False in \<open>auto simp: stop_def\<close>)
  moreover have "take (stop - unat offset) (drop (unat offset) (documentIds s)) =
      take (unat limit) (drop (unat offset) (documentIds s))"
    using False by (auto simp: stop_def)
  ultimately show ?thesis
    using False assms by (simp add: getDocumentIds_def Let_def stop_def)
qed

lemma twoDocs_ids: "documentIds twoDocs = [1, 2]"
  by (simp add: twoDocs_def step_def createDocument_def computeDocumentId_def env0_def
      initState_def zeroDocument_def Let_def)

text \<open>
  Claim C5 at a failing input: with two documents registered, offset 1 and the largest
  limit \<open>2 ^ 256 - 1\<close>, the checked sum \<open>offset + limit\<close> overflows and the call reverts
  instead of returning the one remaining id.
\<close>

theorem getDocumentIds_overflow:
  "getDocumentCount twoDocs = 2 \<and>
   getDocumentIds twoDocs 1
     115792089237316195423570985008687907853269984665640564039457584007913129639935 =
     Inl (Panic 17)"
  by (simp add: getDocumentCount_def getDocumentIds_def twoDocs_ids)

lemma getDocumentIds_zero_offset:
  "getDocumentIds twoDocs 0
     115792089237316195423570985008687907853269984665640564039457584007913129639935 =
     Inr [1, 2]"
proof -
  have "getDocumentIds twoDocs 0
     115792089237316195423570985008687907853269984665640564039457584007913129639935 =
    Inr (take (unat (115792089237316195423570985008687907853269984665640564039457584007913129639935 :: uint256))
      (drop (unat (0 :: uint256)) (documentIds twoDocs)))"
    by (rule getDocumentIds_slice) simp
  then show ?thesis by (simp add: twoDocs_ids)
qed

subsection \<open>The operations on concrete states\<close>

lemma sharedState_eq:
  "sharedState = \<lparr>documents = (\<lambda>_. zeroDocument)(1 :=
                    \<lparr>name = ''a'', encryptedBody = [], encryptedKey = 7, owner = 1,
                     createdAt = 1000, updatedAt = 1000, version = 0\<rparr>),
                editors = (\<lambda>_ _. False)(1 := ((\<lambda>_. False)(1 := True))(2 := True)),
                documentIds = [1],
                fheAllowed = (\<lambda>_ _. False)(7 :=
                   (((\<lambda>_. False)(4096 := True))(1 := True))(2 := True))\<rparr>"
  by (simp add: sharedState_def step_def grantAccess_def created0_eq Let_def)

lemma grant0: "grantAccess created0 1 1 2 = Inr (sharedState, [AccessGranted 1 1 2])"
  by (simp add: sharedState_def step_def grantAccess_def created0_eq Let_def)

theorem duplicate_create_rejected_witness:
  "createDocument env0 initState 1 1000 ''a'' 7 ''p'' =
     Inr (1, created0, [DocumentCreated 1 1 ''a'']) \<and>
   createDocument env0 (run env0 created0 [Tx 1 1001 (UpdateEncryptedBody 1 ''x'')])
     2 1002 ''a'' 8 ''q'' = Inl (DocumentAlreadyExists 1) \<and>
   owner (documents (run env0 created0 [Tx 1 1001 (UpdateEncryptedBody 1 ''x'')]) 1) = 1 \<and>
   createdAt (documents (run env0 created0 [Tx 1 1001 (UpdateEncryptedBody 1 ''x'')]) 1) = 1000"
proof -
  have id: "computeDocumentId env0 ''a'' = 1"
    by (simp add: computeDocumentId_def env0_def)
  have h: "''a'' \<noteq> []" "owner (documents initState (computeDocumentId env0 ''a'')) = 0"
    "fromExternal env0 1 7 ''p'' = Some 7" "(1 :: address) \<noteq> 0"
    "created0 = step env0 initState (Tx 1 1000 (CreateDocument ''a'' 7 ''p''))"
    by (simp_all add: initState_def zeroDocument_def env0_def created0_def)
  from duplicate_create_rejected [OF h refl,
      of "[Tx 1 1001 (UpdateEncryptedBody 1 ''x'')]" 2 1002 8 "''q''"]
  show ?thesis unfolding id by (simp del: run.simps)
qed

theorem grantAccess_guards_witness:
  "isEditor sharedState 1 2 \<and> grantAccess sharedState 2 1 3 = Inl (NotOwner 1 2) \<and>
   grantAccess initState 1 5 3 = Inl (DocumentNotFound 5) \<and>
   grantAccess sharedState 1 1 0 = Inl InvalidAddress"
proof -
  have a: "(3 :: address) \<noteq> 0" "owner (documents sharedState 1) \<noteq> 0"
    "2 \<noteq> owner (documents sharedState 1)" "owner (documents initState 5) = 0"
    "isEditor sharedState 1 2"
    by (simp_all add: sharedState_eq initState_def zeroDocument_def isEditor_def)
  from grantAccess_guards [of sharedState 2 1 3] grantAccess_guards [of initState 1 5 3]
    grantAccess_guards [of sharedState 1 1 3] a
  show ?thesis by blast
qed

theorem only_body_and_permissions_change_witness:
  "owner (documents created0 1) \<noteq> 0 \<and> editors created0 1 1 \<and>
   name (documents (run env0 created0
     [Tx 1 1001 (UpdateEncryptedBody 1 ''x''), Tx 1 1002 (GrantAccess 1 2),
      Tx 3 1003 (CreateDocument ''a'' 9 ''p'')]) 1) = ''a'' \<and>
   owner (documents (run env0 created0
     [Tx 1 1001 (UpdateEncryptedBody 1 ''x''), Tx 1 1002 (GrantAccess 1 2),
      Tx 3 1003 (CreateDocument ''a'' 9 ''p'')]) 1) = 1 \<and>
   createdAt (documents (run env0 created0
     [Tx 1 1001 (UpdateEncryptedBody 1 ''x''), Tx 1 1002 (GrantAccess 1 2),
      Tx 3 1003 (CreateDocument ''a'' 9 ''p'')]) 1) = 1000 \<and>
   encryptedKey (documents (run env0 created0
     [Tx 1 1001 (UpdateEncryptedBody 1 ''x''), Tx 1 1002 (GrantAccess 1 2),
      Tx 3 1003 (CreateDocument ''a'' 9 ''p'')]) 1) = 7 \<and>
   editors (run env0 created0
     [Tx 1 1001 (UpdateEncryptedBody 1 ''x''), Tx 1 1002 (GrantAccess 1 2),
      Tx 3 1003 (CreateDocument ''a'' 9 ''p'')]) 1 1"
proof -
  have a: "owner (documents created0 1) \<noteq> 0" "editors created0 1 1"
    "name (documents created0 1) = ''a''" "owner (documents created0 1) = 1"
    "createdAt (documents created0 1) = 1000" "encryptedKey (documents created0 1) = 7"
    by (simp_all add: created0_eq)
  from only_body_and_permissions_change [of created0 env0
     "[Tx 1 1001 (UpdateEncryptedBody 1 ''x''), Tx 1 1002 (GrantAccess 1 2),
      Tx 3 1003 (CreateDocument ''a'' 9 ''p'')]"] a
  show ?thesis by metis
qed

theorem grantAccess_idempotent_witness:
  "grantAccess created0 1 1 2 = Inr (sharedState, [AccessGranted 1 1 2]) \<and>
   grantAccess (run env0 sharedState [Tx 2 1002 (UpdateEncryptedBody 1 ''x'')]) 1 1 2 =
     Inr (run env0 sharedState [Tx 2 1002 (UpdateEncryptedBody 1 ''x'')],
          [AccessGranted 1 1 2])"
  using grantAccess_idempotent [OF grant0 refl, of env0
      "[Tx 2 1002 (UpdateEncryptedBody 1 ''x'')]"] grant0
  by blast

theorem existence_iff_owner_nonzero_witness:
  "(1 \<in> set (documentIds created0) \<longleftrightarrow> owner (documents created0 1) \<noteq> 0) \<and>
   owner (documents created0 1) = 1 \<and> owner (documents created0 2) = 0 \<and>
   (getDocument created0 2 = Inl (DocumentNotFound 2) \<longleftrightarrow> owner (documents created0 2) = 0) \<and>
   (grantAccess created0 1 2 3 = Inl (DocumentNotFound 2)
      \<longleftrightarrow> owner (documents created0 2) = 0) \<and>
   (updateEncryptedBody created0 1 1001 1 ''x'' = Inl (DocumentNotFound 1)
      \<longleftrightarrow> owner (documents created0 1) = 0)"
proof -
  have a: "\<forall>t \<in> set [Tx 1 1000 (CreateDocument ''a'' 7 ''p'')]. txSender t \<noteq> 0"
    and b: "created0 = run env0 initState [Tx 1 1000 (CreateDocument ''a'' 7 ''p'')]"
    and c: "(3 :: address) \<noteq> 0" "owner (documents created0 1) = 1"
      "owner (documents created0 2) = 0"
    by (simp_all add: created0_def [symmetric]) (simp_all add: created0_eq zeroDocument_def)
  from existence_iff_owner_nonzero [OF a b, of 1 1 1001 "''x''" 3]
    existence_iff_owner_nonzero [OF a b, of 2 1 1001 "''x''" 3] c
  show ?thesis by blast
qed

theorem editors_may_update_witness:
  "isEditor created0 1 1 \<and>
   isEditor (run env0 sharedState [Tx 1 1002 (UpdateEncryptedBody 1 ''x'')]) 1 2 \<and>
   (\<exists>s' evs. updateEncryptedBody (run env0 sharedState
       [Tx 1 1002 (UpdateEncryptedBody 1 ''x'')]) 2 1003 1 ''y'' = Inr (s', evs)) \<and>
   updateEncryptedBody (run env0 initState [Tx 1 1000 (CreateDocument ''a'' 7 ''p'')])
     3 1003 1 ''y'' = Inl (NotEditor 1 3)"
proof -
  let ?txs = "[Tx 1 1002 (UpdateEncryptedBody 1 ''x'')]"
  let ?txs' = "[Tx 1 1000 (CreateDocument ''a'' 7 ''p'')]"
  have r: "run env0 initState ?txs' = created0"
    by (simp add: created0_def)
  have v: "unat (version (documents (run env0 sharedState ?txs) 1)) + 1 < 2 ^ 32"
    by (simp add: sharedState_eq step_def updateEncryptedBody_def Let_def)
  have o: "owner (documents (run env0 initState ?txs') 1) \<noteq> 0" "(3 :: address) \<noteq> 0"
    "3 \<noteq> owner (documents (run env0 initState ?txs') 1)"
    unfolding r by (simp_all add: created0_eq)
  have g: "3 \<notin> set (successfulGrantees env0 initState 1 ?txs')"
    by (simp split: sum.splits)
  from editors_may_update [where e = env0 and s = initState and c = 1 and ts = 1000
      and nm = "''a''" and k = 7 and p = "''p''" and i = 1 and ?s0.0 = created0
      and evs = "[DocumentCreated 1 1 ''a'']" and sg = created0 and cg = 1 and ig = 1
      and x = 2 and ?s1.0 = sharedState and evs' = "[AccessGranted 1 1 2]" and txs = ?txs
      and ts' = 1003 and body = "''y''" and txs' = ?txs' and j = 1 and y = 3
      and ts'' = 1003 and body' = "''y''"] create0 grant0 v o g
  show ?thesis by blast
qed

section \<open>Properties of the client cipher\<close>

subsection \<open>UTF-8: decoding what was encoded\<close>

lemma mod_offset: "x < n \<Longrightarrow> (k * n + x) mod n = (x :: nat)"
  by simp

lemma two_digits:
  fixes c :: nat
  obtains q l where "c = q * 64 + l" "l < 64" "c div 64 = q" "c mod 64 = l"
  using that [of "c div 64" "c mod 64"] by simp

lemma three_digits:
  fixes c :: nat
  obtains h m l where "c = (h * 64 + m) * 64 + l" "m < 64" "l < 64"
    "c div 4096 = h" "(c div 64) mod 64 = m" "c mod 64 = l"
proof -
  have "c div 4096 = c div (64 * 64)" by simp
  also have "\<dots> = c div 64 div 64" by (simp only: div_mult2_eq)
  finally have h: "c div 4096 = c div 64 div 64" .
  have "c = (c div 64 div 64 * 64 + c div 64 mod 64) * 64 + c mod 64" by simp
  then show ?thesis using that [of "c div 64 div 64" "c div 64 mod 64" "c mod 64"] h by simp
qed

lemma four_digits:
  fixes c :: nat
  obtains h k m l where "c = ((h * 64 + k) * 64 + m) * 64 + l" "k < 64" "m < 64" "l < 64"
    "c div 262144 = h" "(c div 4096) mod 64 = k" "(c div 64) mod 64 = m" "c mod 64 = l"
proof -
  have "c div 4096 = c div (64 * 64)" by simp
  also have "\<dots> = c div 64 div 64" by (simp only: div_mult2_eq)
  finally have k: "c div 4096 = c div 64 div 64" .
  have "c div 262144 = c div (64 * 64 * 64)" by simp
  also have "\<dots> = c div 64 div 64 div 64" by (simp only: div_mult2_eq)
  finally have h: "c div 262144 = c div 64 div 64 div 64" .
  have "c = ((c div 64 div 64 div 64 * 64 + c div 64 div 64 mod 64) * 64 + c div 64 mod 64) * 64
      + c mod 64" by simp
  then show ?thesis
    using that [of "c div 64 div 64 div 64" "c div 64 div 64 mod 64" "c div 64 mod 64" "c mod 64"]
      h k by simp
qed

lemma utf8decode_ascii:
  "c < 128 \<Longrightarrow> utf8decode 0 0 0 128 191 (c # rest) = c # utf8decode 0 0 0 128 191 rest"
  by simp

lemma decode_two:
  assumes "194 \<le> b0" "b0 \<le> 223" "128 \<le> b1" "b1 \<le> 191"
  shows "utf8decode 0 0 0 128 191 (b0 # b1 # rest) =
     ((b0 mod 32) * 64 + b1 mod 64) # utf8decode 0 0 0 128 191 rest"
  using assms by simp

lemma decode_three:
  assumes "224 \<le> b0" "b0 \<le> 239" "(if b0 = 224 then 160 else 128) \<le> b1"
    "b1 \<le> (if b0 = 237 then 159 else 191)" "128 \<le> b2" "b2 \<le> 191"
  shows "utf8decode 0 0 0 128 191 (b0 # b1 # b2 # rest) =
     (((b0 mod 16) * 64 + b1 mod 64) * 64 + b2 mod 64) # utf8decode 0 0 0 128 191 rest"
  using assms by simp

lemma decode_four:
  assumes "240 \<le> b0" "b0 \<le> 244" "(if b0 = 240 then 144 else 128) \<le> b1"
    "b1 \<le> (if b0 = 244 then 143 else 191)" "128 \<le> b2" "b2 \<le> 191" "128 \<le> b3" "b3 \<le> 191"
  shows "utf8decode 0 0 0 128 191 (b0 # b1 # b2 # b3 # rest) =
     ((((b0 mod 8) * 64 + b1 mod 64) * 64 + b2 mod 64) * 64 + b3 mod 64)
       # utf8decode 0 0 0 128 191 rest"
  using assms by simp

lemma cont_byte: "l < 64 \<Longrightarrow> 128 \<le> 128 + l \<and> 128 + l \<le> 191 \<and> (128 + l) mod 64 = (l :: nat)"
  using mod_offset [of l 64 2] by simp

lemma utf8decode_two:
  assumes "128 \<le> c" "c < 2048"
  shows "utf8decode 0 0 0 128 191 ((192 + c div 64) # (128 + c mod 64) # rest) =
     c # utf8decode 0 0 0 128 191 rest"
proof -
  obtain q l where d: "c = q * 64 + l" "l < 64" "c div 64 = q" "c mod 64 = l"
    by (rule two_digits)
  from d(1,2) assms have q: "2 \<le> q" "q < 32" by linarith+
  have m: "(192 + q) mod 32 = q" using mod_offset [OF q(2), of 6] by simp
  from decode_two [of "192 + q" "128 + l" rest] q cont_byte [OF d(2)] m
  show ?thesis unfolding d(3,4) by (simp add: d(1))
qed

lemma utf8decode_three:
  assumes "2048 \<le> c" "c < 65536" "\<not> (55296 \<le> c \<and> c \<le> 57343)"
  shows "utf8decode 0 0 0 128 191
      ((224 + c div 4096) # (128 + (c div 64) mod 64) # (128 + c mod 64) # rest) =
     c # utf8decode 0 0 0 128 191 rest"
proof -
  obtain h m l where d: "c = (h * 64 + m) * 64 + l" "m < 64" "l < 64"
    "c div 4096 = h" "(c div 64) mod 64 = m" "c mod 64 = l"
    by (rule three_digits)
  from d(1) have c': "c = h * 4096 + m * 64 + l" by simp
  from c' d(2,3) assms have h: "h < 16" "h = 0 \<longrightarrow> 32 \<le> m" "h = 13 \<longrightarrow> m < 32"
    by auto
  have m0: "(224 + h) mod 16 = h" using mod_offset [OF h(1), of 14] by simp
  have b1: "(if 224 + h = 224 then 160 else 128) \<le> 128 + m"
    "128 + m \<le> (if 224 + h = 237 then 159 else 191)"
    using h d(2) by auto
  from decode_three [of "224 + h" "128 + m" "128 + l" rest, OF _ _ b1] h(1)
    cont_byte [OF d(2)] cont_byte [OF d(3)] m0
  show ?thesis unfolding d(4,5,6) by (simp add: d(1))
qed

lemma utf8decode_four:
  assumes "65536 \<le> c" "c < 1114112"
  shows "utf8decode 0 0 0 128 191
      ((240 + c div 262144) # (128 + (c div 4096) mod 64) # (128 + (c div 64) mod 64)
         # (128 + c mod 64) # rest) =
     c # utf8decode 0 0 0 128 191 rest"
proof -
  obtain h k m l where d: "c = ((h * 64 + k) * 64 + m) * 64 + l" "k < 64" "m < 64" "l < 64"
    "c div 262144 = h" "(c div 4096) mod 64 = k" "(c div 64) mod 64 = m" "c mod 64 = l"
    by (rule four_digits)
  from d(1) have c': "c = h * 262144 + k * 4096 + m * 64 + l" by simp
  from c' d(2,3,4) assms have h: "h < 5" "h = 0 \<longrightarrow> 16 \<le> k" "h = 4 \<longrightarrow> k < 16"
    by auto
  have m0: "(240 + h) mod 8 = h" using mod_offset [of h 8 30] h(1) by simp
  have b1: "(if 240 + h = 240 then 144 else 128) \<le> 128 + k"
    "128 + k \<le> (if 240 + h = 244 then 143 else 191)"
    using h d(2) by auto
  from decode_four [of "240 + h" "128 + k" "128 + m" "128 + l" rest, OF _ _ b1] h(1)
    cont_byte [OF d(2)] cont_byte [OF d(3)] cont_byte [OF d(4)] m0
  show ?thesis unfolding d(5,6,7,8) by (simp add: d(1))
qed

lemma utf8decode_utf8:
  "scalarValue c \<Longrightarrow>
     utf8decode 0 0 0 128 191 (utf8 c @ rest) = c # utf8decode 0 0 0 128 191 rest"
  unfolding utf8_def scalarValue_def
  using utf8decode_ascii [of c rest] utf8decode_two [of c rest] utf8decode_three [of c rest]
    utf8decode_four [of c rest]
  by (cases "c < 128"; cases "c < 2048"; cases "c < 65536") (simp_all del: utf8decode.simps)

lemma utf8decode_concat:
  "\<forall>c \<in> set cs. scalarValue c \<Longrightarrow> utf8decode 0 0 0 128 191 (concat (map utf8 cs)) = cs"
  by (induction cs) (simp_all add: utf8decode_utf8 del: utf8decode.simps(2))

lemma utf8_bytes:
  assumes "scalarValue c" and "b \<in> set (utf8 c)"
  shows "b < 256"
proof -
  obtain h k m l where d: "c = ((h * 64 + k) * 64 + m) * 64 + l" "k < 64" "m < 64" "l < 64"
    "c div 262144 = h" "(c div 4096) mod 64 = k" "(c div 64) mod 64 = m" "c mod 64 = l"
    by (rule four_digits)
  from d(1) have c': "c = h * 262144 + k * 4096 + m * 64 + l" by simp
  have q: "c < 2048 \<Longrightarrow> c div 64 < 32" "c < 65536 \<Longrightarrow> c div 4096 < 16"
    by linarith+
  from c' assms(1) have "h < 5" by (auto simp: scalarValue_def)
  with assms(2) d(2,3,4) q show ?thesis
    unfolding utf8_def d(5,6,7,8) by (auto split: if_splits)
qed

subsection \<open>UTF-16 and scalar values\<close>

lemma pair_digits: "b < n \<Longrightarrow> (a * n + b) div n = (a :: nat) \<and> (a * n + b) mod n = b"
  by simp

lemma pair_scalar:
  assumes "isHighSurrogate c" "isLowSurrogate d"
  shows "scalarValue (65536 + (c - 55296) * 1024 + (d - 56320))"
proof -
  from assms have "c - 55296 \<le> 1023" "d - 56320 \<le> 1023"
    unfolding isHighSurrogate_def isLowSurrogate_def by linarith+
  then have "(c - 55296) * 1024 \<le> 1023 * 1024" by simp
  with \<open>d - 56320 \<le> 1023\<close> show ?thesis
    unfolding scalarValue_def by linarith
qed

lemma unit_scalar:
  "u < 65536 \<Longrightarrow> scalarValue (if isHighSurrogate u \<or> isLowSurrogate u then 65533 else u)"
  unfolding scalarValue_def isHighSurrogate_def isLowSurrogate_def by auto

lemma toScalarValues_scalar:
  "\<forall>u \<in> set us. u < 65536 \<Longrightarrow> \<forall>c \<in> set (toScalarValues us). scalarValue c"
proof (induction us rule: toScalarValues.induct)
  case 1
  show ?case by simp
next
  case (2 c)
  then show ?case using unit_scalar [of c] by simp
next
  case (3 c d rest)
  show ?case
  proof (cases "isHighSurrogate c \<and> isLowSurrogate d")
    case True
    with 3 pair_scalar [of c d] show ?thesis by simp
  next
    case False
    with 3 unit_scalar [of c] show ?thesis by auto
  qed
qed

lemma utf16_pair:
  assumes "isHighSurrogate c" "isLowSurrogate d"
  shows "utf16 (65536 + (c - 55296) * 1024 + (d - 56320)) = [c, d]"
proof -
  define x where "x = c - 55296"
  define y where "y = d - 56320"
  from assms have c: "c = 55296 + x" and d: "d = 56320 + y" and y: "y < 1024"
    by (auto simp: x_def y_def isHighSurrogate_def isLowSurrogate_def)
  have "utf16 (65536 + x * 1024 + y) = [55296 + x, 56320 + y]"
    using pair_digits [OF y, of x] by (simp add: utf16_def)
  then show ?thesis unfolding c d by simp
qed

lemma utf16_toScalarValues:
  "wellFormed us \<Longrightarrow> \<forall>u \<in> set us. u < 65536 \<Longrightarrow> concat (map utf16 (toScalarValues us)) = us"
proof (induction us rule: toScalarValues.induct)
  case 1
  show ?case by simp
next
  case (2 c)
  then show ?case by (simp add: utf16_def)
next
  case (3 c d rest)
  show ?case
  proof (cases "isHighSurrogate c \<and> isLowSurrogate d")
    case True
    with 3 utf16_pair [of c d] show ?thesis by simp
  next
    case False
    with 3 show ?thesis by (simp add: utf16_def)
  qed
qed

lemma stripBOM_toScalarValues:
  "us = [] \<or> hd us \<noteq> 65279 \<Longrightarrow> stripBOM (toScalarValues us) = toScalarValues us"
  by (cases us rule: toScalarValues.cases)
    (auto simp: stripBOM_def isHighSurrogate_def isLowSurrogate_def)

lemma unat_of_nat_byte: "b < 256 \<Longrightarrow> unat (of_nat b :: 8 word) = b"
  by (simp add: unat_of_nat)

lemma unat_of_nat_unit: "b < 65536 \<Longrightarrow> unat (of_nat b :: 16 word) = b"
  by (simp add: unat_of_nat)

lemma unat_unit_bound: "unat (u :: 16 word) < 65536"
  using unsigned_less [of u, where ?'a = nat] by simp

lemma unat_byte_bound: "unat (u :: 8 word) < 256"
  using unsigned_less [of u, where ?'a = nat] by simp

lemma decode_encode:
  "TextDecoder_decode (TextEncoder_encode s) =
     map of_nat (concat (map utf16 (stripBOM (toScalarValues (map unat s)))))"
proof -
  have sc: "\<forall>c \<in> set (toScalarValues (map unat s)). scalarValue c"
    by (rule toScalarValues_scalar) (auto simp: unat_unit_bound)
  then have "\<forall>b \<in> set (concat (map utf8 (toScalarValues (map unat s)))). b < 256"
    by (auto dest: utf8_bytes)
  then have "map (unat \<circ> (of_nat :: nat \<Rightarrow> byte))
        (concat (map utf8 (toScalarValues (map unat s)))) =
      concat (map utf8 (toScalarValues (map unat s)))"
    by (intro map_idI) (auto simp: unat_of_nat_byte)
  then have "map unat (map of_nat (concat (map utf8 (toScalarValues (map unat s)))) :: byte list)
      = concat (map utf8 (toScalarValues (map unat s)))"
    by simp
  with utf8decode_concat [OF sc] show ?thesis
    by (simp add: TextDecoder_decode_def TextEncoder_encode_def del: utf8decode.simps)
qed

lemma text_roundtrip:
  assumes "wellFormed (map unat s)" and "s = [] \<or> hd s \<noteq> 65279"
  shows "TextDecoder_decode (TextEncoder_encode s) = s"
proof -
  have "unat u = 65279 \<Longrightarrow> u = 65279" for u :: "16 word"
    using of_nat_unat [of u, where ?'a = "16 word"] by simp
  with assms(2) have "map unat s = [] \<or> hd (map unat s) \<noteq> 65279"
    by (cases s) auto
  from stripBOM_toScalarValues [OF this]
    utf16_toScalarValues [OF assms(1)]
  have "concat (map utf16 (stripBOM (toScalarValues (map unat s)))) = map unat s"
    by (simp add: unat_unit_bound)
  then show ?thesis by (simp add: decode_encode map_idI)
qed

subsection \<open>Base64: decoding what was encoded\<close>

lemma b64encode_split: "b64encode bs = map b64char (b64sextets bs) @ b64pad bs"
  by (induction bs rule: b64encode.induct) simp_all

lemma b64pad_cases: "b64pad bs = [] \<or> b64pad bs = [61] \<or> b64pad bs = [61, 61]"
  by (induction bs rule: b64pad.induct) simp_all

lemma b64encode_length: "length (b64encode bs) mod 4 = 0"
  by (induction bs rule: b64encode.induct) simp_all

lemma b64sextets_length: "length (b64sextets bs) mod 4 \<noteq> 1"
  by (induction bs rule: b64sextets.induct) simp_all

lemma b64sextets_pad: "b64pad bs \<noteq> [] \<Longrightarrow> b64sextets bs \<noteq> []"
  by (induction bs rule: b64sextets.induct) simp_all

lemma sextet_bounds:
  fixes a b c :: nat
  assumes "a < 256" "b < 256" "c < 256"
  shows "a div 4 < 64" "(a mod 4) * 16 < 64" "(a mod 4) * 16 + b div 16 < 64"
    "(b mod 16) * 4 < 64" "(b mod 16) * 4 + c div 64 < 64" "c mod 64 < 64"
  using assms by linarith+

lemma b64sextets_bound:
  "\<forall>b \<in> set bs. b < 256 \<Longrightarrow> \<forall>x \<in> set (b64sextets bs). x < 64"
proof (induction bs rule: b64sextets.induct)
  case 1
  show ?case by simp
next
  case (2 a)
  then show ?case using sextet_bounds [of a a a] by simp
next
  case (3 a b)
  then show ?case using sextet_bounds [of a b b] by simp
next
  case (4 a b c rest)
  then show ?case using sextet_bounds [of a b c] by simp
qed

lemma b64char_props:
  assumes "x < 64"
  shows "b64index (b64char x) = Some x" "b64char x \<noteq> 61" "b64char x \<noteq> 58"
    "\<not> asciiWhitespace (b64char x)" "b64char x < 65536"
  using assms unfolding b64index_def b64char_def asciiWhitespace_def by auto

lemma b64decode_sextets: "\<forall>b \<in> set bs. b < 256 \<Longrightarrow> b64decode (b64sextets bs) = bs"
proof (induction bs rule: b64sextets.induct)
  case 1
  show ?case by simp
next
  case (2 a)
  have "(a mod 4 * 16) div 16 = a mod 4" by simp
  then show ?case by simp
next
  case (3 a b)
  then have "b < 256" by simp
  then have "b div 16 < 16" by linarith
  from pair_digits [OF this, of "a mod 4"] show ?case by simp
next
  case (4 a b c rest)
  then have "b < 256" "c < 256" by simp_all
  then have "b div 16 < 16" "c div 64 < 4" by linarith+
  from pair_digits [OF this(1), of "a mod 4"] pair_digits [OF this(2), of "b mod 16"] 4
  show ?case by simp
qed

lemma stripPadding_encoded:
  assumes "\<forall>x \<in> set sx. x < 64" and "length (map b64char sx @ pad) mod 4 = 0"
    and "pad = [] \<or> pad = [61] \<or> pad = [61, 61]" and "pad \<noteq> [] \<Longrightarrow> sx \<noteq> []"
  shows "stripPadding (map b64char sx @ pad) = map b64char sx"
proof -
  have l: "sx \<noteq> [] \<Longrightarrow> last (map b64char sx) \<noteq> 61"
    using assms(1) b64char_props(2) [of "last sx"] by (simp add: last_map)
  from assms(3) consider "pad = []" | "pad = [61]" | "pad = [61, 61]" by blast
  then show ?thesis
  proof cases
    case 1
    with l show ?thesis by (auto simp: stripPadding_def)
  next
    case 2
    with assms(4) have "sx \<noteq> []" by simp
    with 2 l assms(2) show ?thesis by (simp add: stripPadding_def)
  next
    case 3
    with assms(2) show ?thesis
      by (simp add: stripPadding_def butlast_append)
  qed
qed

lemma atob_encoded:
  assumes "\<forall>b \<in> set bs. b < 256"
  shows "atob (map of_nat (b64encode bs)) = Inr (map of_nat bs)"
proof -
  let ?sx = "b64sextets bs"
  let ?enc = "b64encode bs"
  have sx: "\<forall>x \<in> set ?sx. x < 64" by (rule b64sextets_bound [OF assms])
  have enc: "?enc = map b64char ?sx @ b64pad bs" by (rule b64encode_split)
  have small: "\<forall>c \<in> set ?enc. c < 65536 \<and> \<not> asciiWhitespace c"
    unfolding enc using sx b64pad_cases [of bs] b64char_props(4,5)
    by (auto simp: asciiWhitespace_def)
  then have "map (unat \<circ> (of_nat :: nat \<Rightarrow> 16 word)) ?enc = ?enc"
    by (intro map_idI) (auto simp: unat_of_nat_unit)
  then have u: "map unat (map of_nat ?enc :: jsString) = ?enc" by simp
  from small have f: "filter (\<lambda>c. \<not> asciiWhitespace c) ?enc = ?enc" by simp
  have sp: "stripPadding ?enc = map b64char ?sx"
    unfolding enc
    by (rule stripPadding_encoded [OF sx _ b64pad_cases b64sextets_pad])
      (use b64encode_length [of bs] enc in simp_all)
  have i: "\<forall>c \<in> set (map b64char ?sx). b64index c \<noteq> None"
    using sx b64char_props(1) by auto
  have "map (\<lambda>c. the (b64index c)) (map b64char ?sx) = map (\<lambda>x. x) ?sx"
    unfolding map_map by (rule map_cong) (use sx b64char_props(1) in auto)
  then have d: "b64decode (map (\<lambda>c. the (b64index c)) (map b64char ?sx)) = bs"
    using b64decode_sextets [OF assms] by simp
  show ?thesis
    unfolding atob_def u f sp Let_def
    using b64sextets_length [of bs] i d by auto
qed

lemma binaryLoop_eq:
  "i \<le> length bytes \<Longrightarrow>
     binaryLoop bytes i binary = binary @ fromCharCode (drop i bytes)"
proof (induction bytes i binary rule: binaryLoop.induct)
  case (1 bytes i binary)
  show ?case
  proof (cases "i < length bytes")
    case False
    with "1.prems" show ?thesis
      by (subst binaryLoop.simps) (simp add: fromCharCode_def)
  next
    case True
    have chunk: "fromCharCode (take 32768 (drop i bytes)) @
        fromCharCode (drop (i + 32768) bytes) = fromCharCode (drop i bytes)"
      unfolding fromCharCode_def map_append [symmetric]
      by (simp add: add.commute [of i] drop_drop [symmetric] del: drop_drop)
    show ?thesis
    proof (cases "i + 32768 \<le> length bytes")
      case le: True
      from "1.IH" [OF True le] True chunk
      show ?thesis by (subst binaryLoop.simps) simp
    next
      case gt: False
      then have "binaryLoop bytes (i + 32768)
          (binary @ fromCharCode (take 32768 (drop i bytes))) =
        binary @ fromCharCode (take 32768 (drop i bytes))"
        by (subst binaryLoop.simps) simp
      with True gt show ?thesis by (subst binaryLoop.simps) simp
    qed
  qed
qed

lemma charCodeLoop_eq:
  "i \<le> length binary \<Longrightarrow> length bytes = length binary \<Longrightarrow>
     charCodeLoop binary i bytes = take i bytes @ map ucast (drop i binary)"
proof (induction binary i bytes rule: charCodeLoop.induct)
  case (1 binary i bytes)
  show ?case
  proof (cases "i < length binary")
    case False
    with "1.prems" show ?thesis by (subst charCodeLoop.simps) simp
  next
    case True
    from "1.IH" [OF True] True "1.prems"
    have "charCodeLoop binary (i + 1) (bytes[i := ucast (binary ! i)]) =
        take (i + 1) (bytes[i := ucast (binary ! i)]) @ map ucast (drop (i + 1) binary)"
      by simp
    moreover have "take (i + 1) (bytes[i := ucast (binary ! i)]) =
        take i bytes @ [ucast (binary ! i)]"
      using True "1.prems" by (simp add: take_Suc_conv_app_nth)
    moreover have "drop i binary = binary ! i # drop (i + 1) binary"
      using True by (simp add: Cons_nth_drop_Suc)
    ultimately show ?thesis
      using True by (subst charCodeLoop.simps) simp
  qed
qed

lemma unat_ucast_byte: "unat (ucast (x :: 8 word) :: 16 word) = unat x"
proof -
  have "unat x < 2 ^ 16" using unat_byte_bound [of x] by simp
  then show ?thesis by (simp add: unsigned_ucast_eq take_bit_nat_eq_self)
qed

lemma ucast_of_nat_unat_byte: "ucast (of_nat (unat (b :: 8 word)) :: 16 word) = b"
  by (simp add: ucast_up_ucast_id is_up)

lemma bytesToBase64_eq:
  "bytesToBase64 bytes = Inr (map of_nat (b64encode (map unat bytes)))"
proof -
  have b: "binaryLoop bytes 0 [] = map ucast bytes"
    using binaryLoop_eq [of 0 bytes "[]"] by (simp add: fromCharCode_def)
  have "unat x \<le> 255" for x :: byte
    using unat_byte_bound [of x] by simp
  then have "\<not> (\<exists>c \<in> set (map ucast bytes :: jsString). 255 < unat c)"
    by (auto simp: unat_ucast_byte not_less)
  then show ?thesis
    by (simp add: bytesToBase64_def b btoa_def unat_ucast_byte comp_def)
qed

lemma base64ToBytes_bytesToBase64:
  "bytesToBase64 bytes = Inr a \<Longrightarrow> base64ToBytes a = Inr bytes"
proof -
  assume "bytesToBase64 bytes = Inr a"
  then have a: "a = map of_nat (b64encode (map unat bytes))"
    by (simp add: bytesToBase64_eq)
  have "atob a = Inr (map of_nat (map unat bytes))"
    unfolding a by (rule atob_encoded) (simp add: unat_byte_bound)
  moreover have "map (ucast \<circ> ((of_nat :: nat \<Rightarrow> 16 word) \<circ> unat)) bytes = bytes"
    by (intro map_idI) (simp add: ucast_up_ucast_id is_up)
  then have "map ucast (map of_nat (map unat bytes) :: jsString) = bytes"
    by simp
  ultimately show ?thesis
    using charCodeLoop_eq [of 0 "map of_nat (map unat bytes)" "replicate (length bytes) 0"]
    by (simp add: base64ToBytes_def)
qed

lemma bytesToBase64_no_colon:
  "bytesToBase64 bytes = Inr a \<Longrightarrow> 58 \<notin> set a"
proof -
  assume "bytesToBase64 bytes = Inr a"
  then have a: "a = map of_nat (b64encode (map unat bytes))"
    by (simp add: bytesToBase64_eq)
  have sx: "\<forall>x \<in> set (b64sextets (map unat bytes)). x < 64"
    by (rule b64sextets_bound) (simp add: unat_byte_bound)
  have "\<forall>c \<in> set (b64encode (map unat bytes)). c < 65536 \<and> c \<noteq> 58"
    unfolding b64encode_split using sx b64pad_cases [of "map unat bytes"] b64char_props(3,5)
    by auto
  then show ?thesis
    unfolding a using unat_of_nat_unit by fastforce
qed

subsection \<open>The payload format\<close>

lemma split_no_colon: "58 \<notin> set a \<Longrightarrow> split a = [a]"
  by (induction a) auto

lemma split_append: "58 \<notin> set a \<Longrightarrow> split (a @ 58 # rest) = a # split rest"
  by (induction a) auto

lemma ascii_v1: "ascii ''v1:'' = [118, 49, 58]" "ascii '':'' = [58]" "ascii ''v1'' = [118, 49]"
  by (simp_all add: ascii_def)

lemma split_payload:
  assumes "58 \<notin> set a" "58 \<notin> set b"
  shows "split (ascii ''v1:'' @ a @ ascii '':'' @ b) = [ascii ''v1'', a, b]"
proof -
  have "split ([118, 49] @ 58 # (a @ 58 # b)) = [118, 49] # split (a @ 58 # b)"
    by (rule split_append) simp
  also have "split (a @ 58 # b) = a # split b" by (rule split_append [OF assms(1)])
  also have "split b = [b]" by (rule split_no_colon [OF assms(2)])
  finally show ?thesis by (simp add: ascii_v1)
qed

lemma deriveKey_sound:
  "cryptoSound cr \<Longrightarrow>
     deriveAesKeyFromSecret cr secret = Inr (sha256 cr (TextEncoder_encode (toString10 secret)))"
  by (simp add: cryptoSound_def deriveAesKeyFromSecret_def)

lemma roundtrip_normalises:
  assumes "cryptoSound cr" "length iv = 12"
  shows "\<exists>payload. encryptDocumentBody cr iv secret plaintext = Inr payload \<and>
     decryptDocumentBody cr secret payload =
       Inr (TextDecoder_decode (TextEncoder_encode plaintext))"
proof -
  let ?key = "sha256 cr (TextEncoder_encode (toString10 secret))"
  have key: "deriveAesKeyFromSecret cr secret = Inr ?key"
    by (rule deriveKey_sound [OF assms(1)])
  have klen: "length ?key = 32" using assms(1) by (simp add: cryptoSound_def)
  from assms(1) klen assms(2) obtain ct where
    enc: "aesGcmEncrypt cr ?key iv (TextEncoder_encode plaintext) = Some ct" and
    dec: "aesGcmDecrypt cr ?key iv ct = Some (TextEncoder_encode plaintext)"
    unfolding cryptoSound_def by blast
  obtain a where a: "bytesToBase64 iv = Inr a" by (simp add: bytesToBase64_eq)
  obtain b where b: "bytesToBase64 ct = Inr b" by (simp add: bytesToBase64_eq)
  let ?payload = "ascii ''v1:'' @ a @ ascii '':'' @ b"
  have e: "encryptDocumentBody cr iv secret plaintext = Inr ?payload"
    by (simp add: encryptDocumentBody_def key enc a b)
  have sp: "split ?payload = [ascii ''v1'', a, b]"
    by (rule split_payload [OF bytesToBase64_no_colon [OF a] bytesToBase64_no_colon [OF b]])
  have ne: "?payload \<noteq> []" by (simp add: ascii_def)
  have "decryptDocumentBody cr secret ?payload =
      Inr (TextDecoder_decode (TextEncoder_encode plaintext))"
    unfolding decryptDocumentBody_def Let_def sp
    using key base64ToBytes_bytesToBase64 [OF a] base64ToBytes_bytesToBase64 [OF b] dec
    by (simp add: ascii_def)
  with e show ?thesis by blast
qed

text \<open>
  Claim C7, amended. With a digest of 32 bytes and a cipher whose decryption inverts its
  encryption, for every secret, every 12-byte nonce and every plaintext that is
  well-formed UTF-16 (no unpaired surrogate) and does not begin with U+FEFF,
  \<open>encryptDocumentBody\<close> returns a payload and \<open>decryptDocumentBody\<close> of that payload
  with the same secret returns the plaintext.
\<close>

theorem encrypt_decrypt_roundtrip:
  assumes "cryptoSound cr" and "length iv = 12"
    and "wellFormed (map unat plaintext)" and "plaintext = [] \<or> hd plaintext \<noteq> 65279"
  shows "\<exists>payload. encryptDocumentBody cr iv secret plaintext = Inr payload \<and>
     decryptDocumentBody cr secret payload = Inr plaintext"
  using roundtrip_normalises [OF assms(1,2), of secret plaintext]
    text_roundtrip [OF assms(3,4)]
  by simp

subsection \<open>Secrets and keys\<close>












subsection \<open>Decryption of sealed, foreign and damaged payloads\<close>






subsection \<open>The module on concrete inputs\<close>

lemma toy_sound: "cryptoSound toyCrypto"
  by (simp add: cryptoSound_def toyCrypto_def comp_def)

lemma toy_key: "deriveAesKeyFromSecret toyCrypto 7 = Inr (replicate 32 55)"
  by (simp add: deriveAesKeyFromSecret_def toyCrypto_def TextEncoder_encode_def toString10_def
      digits10.simps utf8_def isHighSurrogate_def isLowSurrogate_def Let_def)

lemma encode_examples:
  "TextEncoder_encode [55296] = [239, 191, 189]"
  "TextEncoder_encode [72, 233, 8364, 55357, 56832] =
     [72, 195, 169, 226, 130, 172, 240, 159, 152, 128]"
  by (simp_all add: TextEncoder_encode_def utf8_def isHighSurrogate_def isLowSurrogate_def)

lemma toy_encrypt:
  "aesGcmEncrypt toyCrypto key iv clear = Some (map (\<lambda>b. b + 1) clear @ take 16 (iv @ key))"
  by (simp add: toyCrypto_def)

lemma replicate_four: "replicate 4 x = [x, x, x, x]"
  by (simp add: eval_nat_numeral)

lemma encrypt_surrogate:
  "encryptDocumentBody toyCrypto iv0 7 [55296] =
     Inr (ascii ''v1:AQIDBAUGBwgJCgsM:8MC+AQIDBAUGBwgJCgsMNzc3Nw=='')"
  by (simp add: encryptDocumentBody_def toy_key encode_examples bytesToBase64_eq
      toy_encrypt iv0_def b64char_def ascii_def replicate_four)

text \<open>
  Claim C7 as stated fails on a plaintext with an unpaired surrogate: the one-unit
  string U+D800 is encrypted as the bytes of U+FFFD, and decryption returns U+FFFD.
\<close>

theorem lone_surrogate_not_recovered:
  "encryptDocumentBody toyCrypto iv0 7 [55296] =
     Inr (ascii ''v1:AQIDBAUGBwgJCgsM:8MC+AQIDBAUGBwgJCgsMNzc3Nw=='') \<and>
   decryptDocumentBody toyCrypto 7 (ascii ''v1:AQIDBAUGBwgJCgsM:8MC+AQIDBAUGBwgJCgsMNzc3Nw=='') =
     Inr [65533]"
proof -
  have "length iv0 = 12" by (simp add: iv0_def)
  from roundtrip_normalises [OF toy_sound this, of 7 "[55296]"]
  have "decryptDocumentBody toyCrypto 7
      (ascii ''v1:AQIDBAUGBwgJCgsM:8MC+AQIDBAUGBwgJCgsMNzc3Nw=='') =
     Inr (TextDecoder_decode (TextEncoder_encode [55296]))"
    unfolding encrypt_surrogate by simp
  moreover have "TextDecoder_decode (TextEncoder_encode [55296]) = [65533]"
    by (simp add: decode_encode stripBOM_def utf16_def isHighSurrogate_def isLowSurrogate_def)
  ultimately show ?thesis using encrypt_surrogate by simp
qed

lemma encrypt_example:
  "encryptDocumentBody toyCrypto iv0 7 [72, 233, 8364, 55357, 56832] =
     Inr (ascii ''v1:AQIDBAUGBwgJCgsM:ScSq44Ot8aCZgQECAwQFBgcICQoLDDc3Nzc='')"
  by (simp add: encryptDocumentBody_def toy_key encode_examples bytesToBase64_eq
      toy_encrypt iv0_def b64char_def ascii_def replicate_four)

theorem encrypt_decrypt_roundtrip_witness:
  "encryptDocumentBody toyCrypto iv0 7 [72, 233, 8364, 55357, 56832] =
     Inr (ascii ''v1:AQIDBAUGBwgJCgsM:ScSq44Ot8aCZgQECAwQFBgcICQoLDDc3Nzc='') \<and>
   decryptDocumentBody toyCrypto 7
     (ascii ''v1:AQIDBAUGBwgJCgsM:ScSq44Ot8aCZgQECAwQFBgcICQoLDDc3Nzc='') =
     Inr [72, 233, 8364, 55357, 56832]"
proof -
  have h: "length iv0 = 12" "wellFormed (map unat [72, 233, 8364, 55357, 56832 :: 16 word])"
    "[72, 233, 8364, 55357, 56832 :: 16 word] = [] \<or>
       hd [72, 233, 8364, 55357, 56832 :: 16 word] \<noteq> 65279"
    by (simp_all add: iv0_def isHighSurrogate_def isLowSurrogate_def)
  from encrypt_decrypt_roundtrip [OF toy_sound h, of 7] show ?thesis
    unfolding encrypt_example by simp
qed










lemma ascii_append: "ascii (x @ y) = ascii x @ ascii y"
  by (simp add: ascii_def)






text \<open>
  With every sound cipher, an unpaired surrogate comes back as U+FFFD.
\<close>

lemma lone_surrogate_replaced:
  "cryptoSound cr \<Longrightarrow> length iv = 12 \<Longrightarrow>
     \<exists>payload. encryptDocumentBody cr iv secret [55296] = Inr payload \<and>
       decryptDocumentBody cr secret payload = Inr [65533]"
proof -
  assume a: "cryptoSound cr" "length iv = 12"
  have "TextDecoder_decode (TextEncoder_encode [55296]) = [65533]"
    by (simp add: decode_encode stripBOM_def utf16_def isHighSurrogate_def isLowSurrogate_def)
  with roundtrip_normalises [OF a, of secret "[55296]"] show ?thesis by simp
qed

text \<open>
  A plaintext that begins with U+FEFF loses this first character: the decoder, with its
  default options, takes it for a byte order mark.
\<close>

lemma leading_bom_dropped:
  "cryptoSound cr \<Longrightarrow> length iv = 12 \<Longrightarrow>
     \<exists>payload. encryptDocumentBody cr iv secret [65279, 65] = Inr payload \<and>
       decryptDocumentBody cr secret payload = Inr [65]"
proof -
  assume a: "cryptoSound cr" "length iv = 12"
  have "TextDecoder_decode (TextEncoder_encode [65279, 65]) = [65]"
    by (simp add: decode_encode stripBOM_def utf16_def isHighSurrogate_def isLowSurrogate_def)
  with roundtrip_normalises [OF a, of secret "[65279, 65]"] show ?thesis by simp
qed

end
